theory Spec2Isabelle
  imports Main "HOL-Library.Word" "HOL-Library.Signed_Division"
begin

section \<open>The keyed priority queue of package kpq\<close>

text \<open>
  A shallow embedding of \<^verbatim>\<open>kpq/keyed_priority_queue.go\<close>. The queue is the struct
  \<^verbatim>\<open>KeyedPriorityQueue[K, V]\<close> with its slice \<^verbatim>\<open>pm\<close>, its two Go maps \<^verbatim>\<open>im\<close> and
  \<^verbatim>\<open>vals\<close> and the comparison function \<^verbatim>\<open>cmp\<close>; the mutex is not modelled, every
  operation holds it from entry to return. Go's \<^verbatim>\<open>int\<close> is the two's complement integer
  of a 64-bit platform: arithmetic wraps, comparisons and division are signed. A run-time panic is
  the left summand of the result type. The zero value of a type parameter is the
  constant \<open>default\<close> of the class of that name.
\<close>

subsection \<open>Data\<close>

type_synonym goint = "64 word"

datatype panic = NilCmp | IndexOutOfRange | SliceBoundsOutOfRange | LenOutOfRange

text \<open>The two error types; the formatted message is a function of the key and is left out.\<close>

datatype 'k kerror = KeyAlreadyExistsError 'k | KeyNotFoundError 'k

record ('k, 'v) kpq =
  pm :: "'k list"
  im :: "'k \<rightharpoonup> goint"
  vals :: "'k \<rightharpoonup> 'v"
  cmp :: "'v \<Rightarrow> 'v \<Rightarrow> bool"

subsection \<open>Slices and maps of the Go runtime\<close>

definition len :: "'a list \<Rightarrow> goint" where
  "len xs = of_nat (length xs)"

text \<open>\<^verbatim>\<open>xs[i]\<close>: an index outside \<open>[0, len)\<close> panics.\<close>

definition at :: "'a list \<Rightarrow> goint \<Rightarrow> panic + 'a" where
  "at xs i = (if 0 \<le>s i \<and> nat (sint i) < length xs then Inr (xs ! nat (sint i))
              else Inl IndexOutOfRange)"

text \<open>\<^verbatim>\<open>xs[:n]\<close>; the capacity is not modelled, both call sites have \<open>n\<close> below the length.\<close>

definition slice_to :: "'a list \<Rightarrow> goint \<Rightarrow> panic + 'a list" where
  "slice_to xs n = (if 0 \<le>s n \<and> nat (sint n) \<le> length xs then Inr (take (nat (sint n)) xs)
                    else Inl SliceBoundsOutOfRange)"

text \<open>\<^verbatim>\<open>m[k]\<close> read from a Go map: the zero value when the key is absent.\<close>

definition mapget :: "('k \<rightharpoonup> 'v::default) \<Rightarrow> 'k \<Rightarrow> 'v" where
  "mapget m k = (case m k of None \<Rightarrow> default | Some v \<Rightarrow> v)"

text \<open>\<^verbatim>\<open>len(m)\<close> of a Go map: the number of its entries.\<close>

definition maplen :: "('k \<rightharpoonup> 'v) \<Rightarrow> goint" where
  "maplen m = of_nat (card (dom m))"

subsection \<open>Index arithmetic\<close>

definition leftChild :: "goint \<Rightarrow> goint" where
  "leftChild i = (i * 2) + 1"

text \<open>Go's \<^verbatim>\<open>/\<close> truncates towards zero.\<close>

definition parent :: "goint \<Rightarrow> goint" where
  "parent i = word_of_int (sint (i - 1) sdiv 2)"

subsection \<open>The heap primitives\<close>

definition compare :: "('k, 'v::default) kpq \<Rightarrow> goint \<Rightarrow> goint \<Rightarrow> panic + bool" where
  "compare q i j =
     (case at (pm q) i of Inl e \<Rightarrow> Inl e
      | Inr ki \<Rightarrow>
          (case at (pm q) j of Inl e \<Rightarrow> Inl e
           | Inr kj \<Rightarrow> Inr (cmp q (mapget (vals q) ki) (mapget (vals q) kj))))"

text \<open>
  \<^verbatim>\<open>pq.pm[i], pq.pm[j] = pq.pm[j], pq.pm[i]\<close> and then
  \<^verbatim>\<open>pq.im[pq.pm[i]], pq.im[pq.pm[j]] = i, j\<close>: the second statement reads the
  exchanged slice and assigns from left to right.
\<close>

definition swap :: "('k, 'v) kpq \<Rightarrow> goint \<Rightarrow> goint \<Rightarrow> panic + ('k, 'v) kpq" where
  "swap q i j =
     (case at (pm q) i of Inl e \<Rightarrow> Inl e
      | Inr ki \<Rightarrow>
          (case at (pm q) j of Inl e \<Rightarrow> Inl e
           | Inr kj \<Rightarrow>
               (let pm' = (pm q)[nat (sint i) := kj, nat (sint j) := ki]
                in Inr (q\<lparr>pm := pm',
                          im := (im q)(pm' ! nat (sint i) \<mapsto> i, pm' ! nat (sint j) \<mapsto> j)\<rparr>))))"

function swim :: "('k, 'v::default) kpq \<Rightarrow> goint \<Rightarrow> panic + ('k, 'v) kpq" where
  "swim q i =
     (if 0 <s i then
        (case compare q i (parent i) of Inl e \<Rightarrow> Inl e
         | Inr b \<Rightarrow>
             if b then
               (case swap q i (parent i) of Inl e \<Rightarrow> Inl e
                | Inr q' \<Rightarrow> swim q' (parent i))
             else Inr q)
      else Inr q)"
  by pat_completeness auto
termination
proof (relation "measure (\<lambda>(q, i). nat (sint i))")
  show "wf (measure (\<lambda>(q :: ('k, 'v) kpq, i :: goint). nat (sint i)))"
    by simp
next
  fix q :: "('k, 'v) kpq" and i :: goint and b :: bool and q' :: "('k, 'v) kpq"
  assume pos: "0 <s i"
  then have p: "0 < sint i"
    by (simp add: word_sless_alt)
  have lo: "- (2 ^ 63) \<le> sint i" and hi: "sint i < 2 ^ 63"
    using sint_ge [of i] sint_lt [of i] by simp_all
  have "sint (i - 1) = signed_take_bit 63 (sint i - 1)"
    by (simp add: sint_word_ariths)
  also have "\<dots> = sint i - 1"
    using p hi by (simp add: signed_take_bit_int_eq_self)
  finally have m: "sint (i - 1) = sint i - 1" .
  have d: "(sint i - 1) sdiv 2 = (sint i - 1) div 2"
    using p by (simp add: signed_divide_int_def sgn_if)
  have "sint (parent i) = signed_take_bit 63 ((sint i - 1) div 2)"
    by (simp add: parent_def m d sint_sbintrunc')
  also have "\<dots> = (sint i - 1) div 2"
    using p hi by (simp add: signed_take_bit_int_eq_self)
  finally have "sint (parent i) < sint i" and "0 \<le> sint (parent i)"
    using p by simp_all
  then show "((q', parent i), (q, i)) \<in> measure (\<lambda>(q, i). nat (sint i))"
    using p by simp
qed

function sink :: "('k, 'v::default) kpq \<Rightarrow> goint \<Rightarrow> goint \<Rightarrow> panic + ('k, 'v) kpq" where
  "sink q i n =
     (if leftChild i <s n then
        (let j = leftChild i in
         if j <s 0 then Inr q
         else
           (case (if j + 1 <s n then compare q (j + 1) j else Inr False) of Inl e \<Rightarrow> Inl e
            | Inr b \<Rightarrow>
                (let j' = (if b then j + 1 else j) in
                 case compare q j' i of Inl e \<Rightarrow> Inl e
                 | Inr c \<Rightarrow>
                     if \<not> c then Inr q
                     else
                       (case swap q i j' of Inl e \<Rightarrow> Inl e
                        | Inr q' \<Rightarrow> sink q' j' n))))
      else Inr q)"
  by pat_completeness auto
termination
proof (relation "measure (\<lambda>(q, i, n). nat (sint n - sint i))")
  show "wf (measure (\<lambda>(q :: ('k, 'v::default) kpq, i :: goint, n :: goint). nat (sint n - sint i)))"
    by simp
next
  fix q :: "('k, 'v::default) kpq" and i n j :: goint and b :: bool and j' :: goint and c :: bool
    and q' :: "('k, 'v) kpq"
  assume lt: "leftChild i <s n" and j: "j = leftChild i" and nn: "\<not> j <s 0"
    and b: "(if j + 1 <s n then compare q (j + 1) j else Inr False) = Inr b"
    and j': "j' = (if b then j + 1 else j)"
    and c: "compare q j' i = Inr c"
  have over: "signed_take_bit 63 k = k - 2 ^ 64" if "2 ^ 63 \<le> k" "k < 2 ^ 64" for k :: int
  proof -
    have "(k + 2 ^ 63) mod 2 ^ 64 = (k + 2 ^ 63 - 2 ^ 64) mod 2 ^ 64"
      by (metis mod_diff_right_eq mod_self diff_zero)
    also have "\<dots> = k + 2 ^ 63 - 2 ^ 64"
      using that by (intro mod_pos_pos_trivial) simp_all
    finally show ?thesis
      by (simp add: signed_take_bit_eq_take_bit_shift take_bit_eq_mod)
  qed
  have step: "sint w = k" if "w = word_of_int k" "0 \<le> sint w" "0 \<le> k" "k < 2 ^ 64"
    for w :: goint and k :: int
  proof -
    have e: "sint w = signed_take_bit 63 k"
      unfolding that(1) by (simp only: sint_sbintrunc') simp
    show ?thesis
    proof (cases "k < 2 ^ 63")
      case True
      then show ?thesis using e that(3) by (simp add: signed_take_bit_int_eq_self)
    next
      case False
      then have "signed_take_bit 63 k = k - 2 ^ 64"
        using that(4) by (intro over) simp_all
      then have "sint w < 0"
        using e that(4) by linarith
      then show ?thesis
        using that(2) by linarith
    qed
  qed
  from c have i0: "0 \<le> sint i"
    by (auto simp: compare_def at_def word_sle_eq split: sum.splits if_splits)
  have hi: "sint i < 2 ^ 63"
    using sint_lt [of i] by simp
  have j0: "0 \<le> sint j" and jn: "sint j < sint n"
    using nn lt j by (simp_all add: word_sless_alt)
  have jv: "sint j = sint i * 2 + 1"
    using j0 i0 hi by (intro step) (simp_all add: j leftChild_def)
  have "sint i < sint j' \<and> sint j' < sint n"
  proof (cases b)
    case False
    then show ?thesis using j' jv jn i0 by simp
  next
    case True
    with b have r: "j + 1 <s n" and cr: "compare q (j + 1) j = Inr True"
      by (simp_all split: if_splits)
    from cr have r0: "0 \<le> sint (j + 1)"
      by (auto simp: compare_def at_def word_sle_eq split: sum.splits if_splits)
    have "sint (j + 1) = sint j + 1"
      using r0 j0 sint_lt [of j] by (intro step) simp_all
    then show ?thesis
      using True j' jv r i0 by (simp add: word_sless_alt)
  qed
  then show "((q', j', n), (q, i, n)) \<in> measure (\<lambda>(q, i, n). nat (sint n - sint i))"
    by simp
qed

declare swim.simps [simp del] sink.simps [simp del]

subsection \<open>The public operations\<close>

text \<open>
  A \<^verbatim>\<open>CmpFunc\<close> may be \<^verbatim>\<open>nil\<close>, which is \<open>None\<close> here. The fields of the struct are
  unexported, so every queue comes from the constructor and holds a comparison function.
\<close>

definition NewKeyedPriorityQueue :: "('v \<Rightarrow> 'v \<Rightarrow> bool) option \<Rightarrow> panic + ('k, 'v) kpq" where
  "NewKeyedPriorityQueue c =
     (case c of None \<Rightarrow> Inl NilCmp
      | Some f \<Rightarrow> Inr \<lparr>pm = [], im = Map.empty, vals = Map.empty, cmp = f\<rparr>)"

text \<open>
  \<^verbatim>\<open>append(xs, x)\<close>: the length of a slice is a Go \<^verbatim>\<open>int\<close>, and the runtime panics
  when the new length does not fit.
\<close>

definition append1 :: "'a list \<Rightarrow> 'a \<Rightarrow> panic + 'a list" where
  "append1 xs x = (if int (length xs) + 1 < 2 ^ 63 then Inr (xs @ [x]) else Inl LenOutOfRange)"

text \<open>The \<^verbatim>\<open>error\<close> result is \<open>None\<close> for \<^verbatim>\<open>nil\<close>.\<close>

definition Push :: "('k, 'v::default) kpq \<Rightarrow> 'k \<Rightarrow> 'v \<Rightarrow> panic + (('k, 'v) kpq \<times> 'k kerror option)" where
  "Push q k v =
     (case im q k of Some i \<Rightarrow> Inr (q, Some (KeyAlreadyExistsError k))
      | None \<Rightarrow>
          (let n = len (pm q) in
           case append1 (pm q) k of Inl e \<Rightarrow> Inl e
           | Inr pm' \<Rightarrow>
               (case swim (q\<lparr>pm := pm', im := (im q)(k \<mapsto> n), vals := (vals q)(k \<mapsto> v)\<rparr>) n of
                  Inl e \<Rightarrow> Inl e
                | Inr q' \<Rightarrow> Inr (q', None))))"

definition Pop :: "('k::default, 'v::default) kpq \<Rightarrow> panic + (('k, 'v) kpq \<times> 'k \<times> 'v \<times> bool)" where
  "Pop q =
     (if len (pm q) = 0 then Inr (q, default, default, False)
      else
        (let n = len (pm q) - 1 in
         case at (pm q) 0 of Inl e \<Rightarrow> Inl e
         | Inr k \<Rightarrow>
             (let v = mapget (vals q) k in
              case swap q 0 n of Inl e \<Rightarrow> Inl e
              | Inr q1 \<Rightarrow>
                  (case sink q1 0 n of Inl e \<Rightarrow> Inl e
                   | Inr q2 \<Rightarrow>
                       (case slice_to (pm q2) n of Inl e \<Rightarrow> Inl e
                        | Inr pm' \<Rightarrow>
                            Inr (q2\<lparr>pm := pm', im := (im q2)(k := None),
                                    vals := (vals q2)(k := None)\<rparr>, k, v, True))))))"

definition Update :: "('k, 'v::default) kpq \<Rightarrow> 'k \<Rightarrow> 'v \<Rightarrow> panic + (('k, 'v) kpq \<times> 'k kerror option)" where
  "Update q k v =
     (case im q k of None \<Rightarrow> Inr (q, Some (KeyNotFoundError k))
      | Some i \<Rightarrow>
          (case swim (q\<lparr>vals := (vals q)(k \<mapsto> v)\<rparr>) i of Inl e \<Rightarrow> Inl e
           | Inr q1 \<Rightarrow>
               (case sink q1 i (maplen (vals q1)) of Inl e \<Rightarrow> Inl e
                | Inr q2 \<Rightarrow> Inr (q2, None))))"

definition Peek :: "('k::default, 'v::default) kpq \<Rightarrow> panic + ('k \<times> 'v \<times> bool)" where
  "Peek q =
     (if len (pm q) = 0 then Inr (default, default, False)
      else
        (case at (pm q) 0 of Inl e \<Rightarrow> Inl e
         | Inr k \<Rightarrow>
             (case at (pm q) 0 of Inl e \<Rightarrow> Inl e
              | Inr k' \<Rightarrow> Inr (k, mapget (vals q) k', True))))"

definition PeekKey :: "('k::default, 'v) kpq \<Rightarrow> panic + ('k \<times> bool)" where
  "PeekKey q =
     (if len (pm q) = 0 then Inr (default, False)
      else (case at (pm q) 0 of Inl e \<Rightarrow> Inl e | Inr k \<Rightarrow> Inr (k, True)))"

definition PeekValue :: "('k, 'v::default) kpq \<Rightarrow> panic + ('v \<times> bool)" where
  "PeekValue q =
     (if len (pm q) = 0 then Inr (default, False)
      else (case at (pm q) 0 of Inl e \<Rightarrow> Inl e | Inr k \<Rightarrow> Inr (mapget (vals q) k, True)))"

definition Contains :: "('k, 'v) kpq \<Rightarrow> 'k \<Rightarrow> bool" where
  "Contains q k = (case im q k of None \<Rightarrow> False | Some i \<Rightarrow> True)"

definition ValueOf :: "('k, 'v::default) kpq \<Rightarrow> 'k \<Rightarrow> 'v \<times> bool" where
  "ValueOf q k = (case vals q k of None \<Rightarrow> (default, False) | Some v \<Rightarrow> (v, True))"

definition Remove :: "('k, 'v::default) kpq \<Rightarrow> 'k \<Rightarrow> panic + ('k, 'v) kpq" where
  "Remove q k =
     (case im q k of None \<Rightarrow> Inr q
      | Some i \<Rightarrow>
          (let n = len (pm q) - 1 in
           case (if i \<noteq> n then
                   (case swap q i n of Inl e \<Rightarrow> Inl e
                    | Inr q1 \<Rightarrow>
                        (case sink q1 i n of Inl e \<Rightarrow> Inl e
                         | Inr q2 \<Rightarrow> swim q2 i))
                 else Inr q) of Inl e \<Rightarrow> Inl e
           | Inr q3 \<Rightarrow>
               (case slice_to (pm q3) n of Inl e \<Rightarrow> Inl e
                | Inr pm' \<Rightarrow>
                    Inr (q3\<lparr>pm := pm', im := (im q3)(k := None), vals := (vals q3)(k := None)\<rparr>))))"

definition Len :: "('k, 'v) kpq \<Rightarrow> goint" where
  "Len q = len (pm q)"


subsection \<open>Sequences of calls\<close>

datatype ('k, 'v) call = CallPush 'k 'v | CallPop | CallUpdate 'k 'v | CallRemove 'k

fun perform :: "('k::default, 'v::default) kpq \<Rightarrow> ('k, 'v) call \<Rightarrow> panic + ('k, 'v) kpq" where
  "perform q (CallPush k v) = (case Push q k v of Inl e \<Rightarrow> Inl e | Inr (q', err) \<Rightarrow> Inr q')"
| "perform q CallPop = (case Pop q of Inl e \<Rightarrow> Inl e | Inr (q', k, v, ok) \<Rightarrow> Inr q')"
| "perform q (CallUpdate k v) = (case Update q k v of Inl e \<Rightarrow> Inl e | Inr (q', err) \<Rightarrow> Inr q')"
| "perform q (CallRemove k) = Remove q k"

fun run :: "('k::default, 'v::default) kpq \<Rightarrow> ('k, 'v) call list \<Rightarrow> panic + ('k, 'v) kpq" where
  "run q [] = Inr q"
| "run q (c # cs) = (case perform q c of Inl e \<Rightarrow> Inl e | Inr q' \<Rightarrow> run q' cs)"


subsection \<open>Zero values of the types used in the examples\<close>

instantiation int :: default
begin

definition default_int :: int where
  "default_int = 0"

instance ..

end

instantiation list :: (type) default
begin

definition default_list :: "'a list" where
  "default_list = []"

instance ..

end

subsection \<open>Slots as natural numbers\<close>

text \<open>
  The heap primitives once more, on slot numbers that are natural numbers and without
  bounds checks. They are not part of the source: the proofs work on them, and
  the functions of the source are shown to compute them whenever the slots are in range.
\<close>

definition val_at :: "('k, 'v::default) kpq \<Rightarrow> nat \<Rightarrow> 'v" where
  "val_at q i = mapget (vals q) (pm q ! i)"

definition better :: "('k, 'v::default) kpq \<Rightarrow> nat \<Rightarrow> nat \<Rightarrow> bool" where
  "better q i j = cmp q (val_at q i) (val_at q j)"

definition exchange :: "('k, 'v) kpq \<Rightarrow> nat \<Rightarrow> nat \<Rightarrow> ('k, 'v) kpq" where
  "exchange q i j =
     q\<lparr>pm := (pm q)[i := pm q ! j, j := pm q ! i],
       im := (im q)(pm q ! j \<mapsto> of_nat i, pm q ! i \<mapsto> of_nat j)\<rparr>"

function swim_nat :: "('k, 'v::default) kpq \<Rightarrow> nat \<Rightarrow> ('k, 'v) kpq" where
  "swim_nat q i =
     (if 0 < i \<and> better q i ((i - 1) div 2)
      then swim_nat (exchange q i ((i - 1) div 2)) ((i - 1) div 2)
      else q)"
  by pat_completeness auto
termination
  by (relation "measure (\<lambda>(q, i). i)") auto

function sink_nat :: "('k, 'v::default) kpq \<Rightarrow> nat \<Rightarrow> nat \<Rightarrow> ('k, 'v) kpq" where
  "sink_nat q i n =
     (if 2 * i + 1 < n then
        (let j = 2 * i + 1;
             j' = (if j + 1 < n \<and> better q (j + 1) j then j + 1 else j)
         in if better q j' i then sink_nat (exchange q i j') j' n else q)
      else q)"
  by pat_completeness auto
termination
  by (relation "measure (\<lambda>(q, i, n). n - i)") (auto split: if_splits)

declare swim_nat.simps [simp del] sink_nat.simps [simp del]

subsection \<open>The invariants\<close>

text \<open>The comparison function is a strict weak ordering.\<close>

definition strict_weak_order :: "('v \<Rightarrow> 'v \<Rightarrow> bool) \<Rightarrow> bool" where
  "strict_weak_order f \<longleftrightarrow>
     (\<forall>a. \<not> f a a) \<and> (\<forall>a b c. f a b \<longrightarrow> f b c \<longrightarrow> f a c) \<and>
     (\<forall>a b c. \<not> f a b \<longrightarrow> \<not> f b c \<longrightarrow> \<not> f a c)"

text \<open>
  The heap property in the words of the source: \<^verbatim>\<open>compare(i, parent(i))\<close> returns
  \<^verbatim>\<open>false\<close> at every slot but the root.
\<close>

definition heap_property :: "('k, 'v::default) kpq \<Rightarrow> bool" where
  "heap_property q \<longleftrightarrow> (\<forall>i. 0 <s i \<and> i <s len (pm q) \<longrightarrow> compare q i (parent i) = Inr False)"

text \<open>The same on natural numbers, for the first \<open>n\<close> slots.\<close>

definition heap_upto :: "nat \<Rightarrow> ('k, 'v::default) kpq \<Rightarrow> bool" where
  "heap_upto n q \<longleftrightarrow> (\<forall>j. 0 < j \<and> j < n \<longrightarrow> \<not> better q j ((j - 1) div 2))"

text \<open>
  The heap with one slot \<open>i\<close> out of place. In \<open>up_hole\<close> the entry of \<open>i\<close> may have
  priority over its parent, in \<open>down_hole\<close> a child of \<open>i\<close> may have priority over it;
  in both, no child of \<open>i\<close> has priority over the parent of \<open>i\<close>.
\<close>

definition up_hole :: "nat \<Rightarrow> nat \<Rightarrow> ('k, 'v::default) kpq \<Rightarrow> bool" where
  "up_hole n i q \<longleftrightarrow>
     (\<forall>j. 0 < j \<and> j < n \<and> j \<noteq> i \<longrightarrow> \<not> better q j ((j - 1) div 2)) \<and>
     (\<forall>c. 0 < i \<and> c < n \<and> 0 < c \<and> (c - 1) div 2 = i \<longrightarrow> \<not> better q c ((i - 1) div 2))"

definition down_hole :: "nat \<Rightarrow> nat \<Rightarrow> ('k, 'v::default) kpq \<Rightarrow> bool" where
  "down_hole n i q \<longleftrightarrow>
     (\<forall>j. 0 < j \<and> j < n \<and> (j - 1) div 2 \<noteq> i \<longrightarrow> \<not> better q j ((j - 1) div 2)) \<and>
     (\<forall>c. 0 < i \<and> c < n \<and> 0 < c \<and> (c - 1) div 2 = i \<longrightarrow> \<not> better q c ((i - 1) div 2))"

text \<open>
  The three containers hold the same keys, once each, and \<^verbatim>\<open>im\<close> is the inverse of
  \<^verbatim>\<open>pm\<close>. The length of a slice fits a Go \<^verbatim>\<open>int\<close>.
\<close>

definition consistent :: "('k, 'v) kpq \<Rightarrow> bool" where
  "consistent q \<longleftrightarrow>
     distinct (pm q) \<and> int (length (pm q)) < 2 ^ 63 \<and>
     dom (im q) = set (pm q) \<and> dom (vals q) = set (pm q) \<and>
     (\<forall>i < length (pm q). im q (pm q ! i) = Some (of_nat i))"

section \<open>Basic facts\<close>

lemma len_Nil: "len [] = 0"
  by (simp add: len_def)

lemma at_0: "xs \<noteq> [] \<Longrightarrow> at xs 0 = Inr (xs ! 0)"
  by (simp add: at_def)

lemma swim_0: "swim q 0 = Inr q"
  by (simp add: swim.simps)


subsection \<open>Restoring the heap upwards\<close>

lemma swo_irrefl: "strict_weak_order f \<Longrightarrow> \<not> f a a"
  by (simp add: strict_weak_order_def)

lemma swo_trans: "strict_weak_order f \<Longrightarrow> f a b \<Longrightarrow> f b c \<Longrightarrow> f a c"
  unfolding strict_weak_order_def by blast

lemma swo_negtrans: "strict_weak_order f \<Longrightarrow> \<not> f a b \<Longrightarrow> \<not> f b c \<Longrightarrow> \<not> f a c"
  unfolding strict_weak_order_def by blast

lemma swo_asym: "strict_weak_order f \<Longrightarrow> f a b \<Longrightarrow> \<not> f b a"
  using swo_irrefl swo_trans by metis

lemma parent_child_iff: "0 < c \<Longrightarrow> (c - 1) div 2 = i \<longleftrightarrow> c = 2 * i + 1 \<or> c = 2 * i + 2"
  for c i :: nat
  by auto

lemma parent_less: "0 < c \<Longrightarrow> (c - 1) div 2 < c" for c :: nat
  by auto

lemma exchange_fields [simp]:
  "vals (exchange q i j) = vals q" "cmp (exchange q i j) = cmp q"
  "length (pm (exchange q i j)) = length (pm q)"
  by (simp_all add: exchange_def)

lemma val_at_exchange:
  assumes "i < length (pm q)" "j < length (pm q)"
  shows "val_at (exchange q i j) m =
         (if m = i then val_at q j else if m = j then val_at q i else val_at q m)"
  using assms by (simp add: val_at_def exchange_def nth_list_update)

lemma better_exchange:
  assumes "i < length (pm q)" "j < length (pm q)"
  shows "better (exchange q i j) a b =
         cmp q (if a = i then val_at q j else if a = j then val_at q i else val_at q a)
               (if b = i then val_at q j else if b = j then val_at q i else val_at q b)"
  using assms by (simp add: better_def val_at_exchange)

lemma up_hole_step:
  assumes swo: "strict_weak_order (cmp q)" and i: "0 < i" "i < n" and n: "n \<le> length (pm q)"
    and hole: "up_hole n i q" and b: "better q i ((i - 1) div 2)"
  shows "up_hole n ((i - 1) div 2) (exchange q i ((i - 1) div 2))"
proof -
  define p where "p = (i - 1) div 2"
  have pi: "p < i" using i by (simp add: p_def)
  have ip: "(i - 1) div 2 = p" "(i - Suc 0) div 2 = p"
    by (simp_all add: p_def)
  have len: "i < length (pm q)" "p < length (pm q)" using i n pi by simp_all
  note be = better_exchange [OF len]
  have edge: "\<not> better q j ((j - 1) div 2)" if "0 < j" "j < n" "j \<noteq> i" for j
    using hole that by (simp add: up_hole_def)
  have gp: "\<not> cmp q (val_at q c) (val_at q p)" if "c < n" "0 < c" "(c - 1) div 2 = i" for c
    using hole that i by (simp add: up_hole_def better_def ip)
  have b': "cmp q (val_at q i) (val_at q p)"
    using b by (simp add: better_def ip)
  have 1: "\<not> better (exchange q i p) j ((j - 1) div 2)" if j: "0 < j" "j < n" "j \<noteq> p" for j
  proof (cases "j = i")
    case True
    then show ?thesis
      using pi swo_asym [OF swo b'] by (simp add: be ip)
  next
    case ji: False
    have e: "\<not> cmp q (val_at q j) (val_at q ((j - 1) div 2))"
      using edge [OF j(1,2) ji] by (simp add: better_def)
    consider "(j - 1) div 2 = i" | "(j - 1) div 2 = p" | "(j - 1) div 2 \<noteq> i" "(j - 1) div 2 \<noteq> p"
      by blast
    then show ?thesis
    proof cases
      case 1
      then show ?thesis
        using gp [OF j(2,1) 1] ji j(3) pi 1 by (simp add: be)
    next
      case 2
      have "\<not> cmp q (val_at q j) (val_at q i)"
        using e b' swo_trans [OF swo] unfolding 2 by blast
      then show ?thesis
        using 2 ji j(3) pi by (simp add: be)
    next
      case 3
      then show ?thesis
        using e ji j(3) by (simp add: be)
    qed
  qed
  have 2: "\<not> better (exchange q i p) c ((p - 1) div 2)"
    if c: "0 < p" "c < n" "0 < c" "(c - 1) div 2 = p" for c
  proof -
    have pp: "(p - 1) div 2 < p" using c(1) by simp
    have ep: "\<not> cmp q (val_at q p) (val_at q ((p - 1) div 2))"
      using edge [of p] c(1) pi i by (simp add: better_def)
    have cp: "c \<noteq> p" using c(3,4) parent_less [of c] by simp
    show ?thesis
    proof (cases "c = i")
      case True
      then show ?thesis using ep pp pi by (simp add: be)
    next
      case False
      have "\<not> cmp q (val_at q c) (val_at q p)"
        using edge [OF c(3,2) False] c(4) by (simp add: better_def)
      then have "\<not> cmp q (val_at q c) (val_at q ((p - 1) div 2))"
        using ep swo_negtrans [OF swo] by blast
      then show ?thesis using False cp pp pi by (simp add: be)
    qed
  qed
  show ?thesis
    unfolding up_hole_def ip using 1 2 by blast
qed

lemma up_hole_done:
  assumes "up_hole n i q" "\<not> (0 < i \<and> better q i ((i - 1) div 2))"
  shows "heap_upto n q"
  using assms unfolding up_hole_def heap_upto_def by (metis not_gr_zero)

lemma swim_nat_heap:
  assumes "strict_weak_order (cmp q)" "i < n" "n \<le> length (pm q)" "up_hole n i q"
  shows "heap_upto n (swim_nat q i)"
  using assms
proof (induction q i rule: swim_nat.induct)
  case (1 q i)
  show ?case
  proof (cases "0 < i \<and> better q i ((i - 1) div 2)")
    case True
    then have "up_hole n ((i - 1) div 2) (exchange q i ((i - 1) div 2))"
      using "1.prems" by (intro up_hole_step) simp_all
    moreover have "(i - 1) div 2 < n" using "1.prems"(2) by simp
    ultimately have "heap_upto n (swim_nat (exchange q i ((i - 1) div 2)) ((i - 1) div 2))"
      using "1.IH" [OF True] "1.prems" by simp
    then show ?thesis using True by (subst swim_nat.simps) simp
  next
    case False
    then show ?thesis
      using up_hole_done [OF "1.prems"(4)] by (subst swim_nat.simps) auto
  qed
qed

subsection \<open>Restoring the heap downwards\<close>

lemma down_hole_step:
  assumes swo: "strict_weak_order (cmp q)" and n: "n \<le> length (pm q)" and l: "2 * i + 1 < n"
    and j': "j' = (if 2 * i + 1 + 1 < n \<and> better q (2 * i + 1 + 1) (2 * i + 1) then 2 * i + 1 + 1 else 2 * i + 1)"
    and hole: "down_hole n i q" and b: "better q j' i"
  shows "down_hole n j' (exchange q i j')"
proof -
  have ij: "i < j'" "j' < n" and jc: "j' = 2 * i + 1 \<or> j' = 2 * i + 2"
    using l j' by (auto split: if_splits)
  have pj: "(j' - 1) div 2 = i" "(j' - Suc 0) div 2 = i"
    using jc by auto
  have len: "i < length (pm q)" "j' < length (pm q)" using ij n by simp_all
  note be = better_exchange [OF len]
  have edge: "\<not> cmp q (val_at q m) (val_at q ((m - 1) div 2))"
    if "0 < m" "m < n" "(m - 1) div 2 \<noteq> i" for m
    using hole that by (simp add: down_hole_def better_def)
  have gp: "\<not> cmp q (val_at q c) (val_at q ((i - 1) div 2))"
    if "0 < i" "c < n" "0 < c" "(c - 1) div 2 = i" for c
    using hole that by (simp add: down_hole_def better_def)
  have b': "cmp q (val_at q j') (val_at q i)"
    using b by (simp add: better_def)
  have sib: "\<not> cmp q (val_at q m) (val_at q j')" if m: "0 < m" "m < n" "(m - 1) div 2 = i" "m \<noteq> j'" for m
  proof -
    have mc: "m = 2 * i + 1 \<or> m = 2 * i + 2"
      using m(1,3) by auto
    show ?thesis
    proof (cases "2 * i + 1 + 1 < n \<and> better q (2 * i + 1 + 1) (2 * i + 1)")
      case True
      then have "j' = 2 * i + 2" "m = 2 * i + 1" using j' mc m(4) by auto
      then show ?thesis
        using True swo_asym [OF swo] by (auto simp: better_def)
    next
      case False
      then have "j' = 2 * i + 1" using j' by simp
      then have "m = 2 * i + 2" using mc m(4) by auto
      then show ?thesis
        using False m(2) \<open>j' = 2 * i + 1\<close> by (auto simp: better_def)
    qed
  qed
  have 1: "\<not> better (exchange q i j') m ((m - 1) div 2)"
    if m: "0 < m" "m < n" "(m - 1) div 2 \<noteq> j'" for m
  proof -
    consider "m = i" | "m = j'" | "m \<noteq> i" "m \<noteq> j'" "(m - 1) div 2 = i"
      | "m \<noteq> i" "m \<noteq> j'" "(m - 1) div 2 \<noteq> i"
      by blast
    then show ?thesis
    proof cases
      case 1
      have "(i - 1) div 2 < i" using m(1) 1 by simp
      then have "(i - 1) div 2 \<noteq> i" "(i - 1) div 2 \<noteq> j'" using ij by simp_all
      then show ?thesis
        using gp [of j'] ij pj m(1) 1 by (simp add: be)
    next
      case 2
      then show ?thesis
        using swo_asym [OF swo b'] ij by (simp add: be pj)
    next
      case 3
      then show ?thesis
        using sib [OF m(1,2)] ij by (simp add: be)
    next
      case 4
      then show ?thesis
        using edge [OF m(1,2)] m(3) by (simp add: be)
    qed
  qed
  have 2: "\<not> better (exchange q i j') c ((j' - 1) div 2)"
    if c: "0 < j'" "c < n" "0 < c" "(c - 1) div 2 = j'" for c
  proof -
    have "j' < c" using c(3,4) parent_less [of c] by simp
    then have "c \<noteq> i" "c \<noteq> j'" using ij by simp_all
    moreover have "\<not> cmp q (val_at q c) (val_at q j')"
      using edge [OF c(3,2)] c(4) ij by simp
    ultimately show ?thesis
      using ij by (simp add: be pj)
  qed
  show ?thesis
    unfolding down_hole_def using 1 2 by blast
qed

lemma down_hole_done:
  assumes swo: "strict_weak_order (cmp q)" and hole: "down_hole n i q"
    and j': "j' = (if 2 * i + 1 + 1 < n \<and> better q (2 * i + 1 + 1) (2 * i + 1) then 2 * i + 1 + 1 else 2 * i + 1)"
    and stop: "\<not> (2 * i + 1 < n \<and> better q j' i)"
  shows "heap_upto n q"
  unfolding heap_upto_def
proof (intro allI impI)
  fix m assume m: "0 < m \<and> m < n"
  show "\<not> better q m ((m - 1) div 2)"
  proof (cases "(m - 1) div 2 = i")
    case False
    then show ?thesis using hole m by (simp add: down_hole_def)
  next
    case True
    then have mc: "m = 2 * i + 1 \<or> m = 2 * i + 2"
      using m by auto
    then have l: "2 * i + 1 < n" using m by auto
    with stop have nb: "\<not> cmp q (val_at q j') (val_at q i)"
      by (simp add: better_def)
    show ?thesis
    proof (cases "2 * i + 1 + 1 < n \<and> better q (2 * i + 1 + 1) (2 * i + 1)")
      case c: True
      then have r: "j' = 2 * i + 2" using j' by simp
      have "\<not> cmp q (val_at q (2 * i + 1)) (val_at q i)"
        using c nb swo_trans [OF swo] unfolding r better_def by (metis add.assoc one_add_one)
      then show ?thesis
        using mc nb r True by (auto simp: better_def)
    next
      case c: False
      then have r: "j' = 2 * i + 1" using j' by simp
      have "\<not> cmp q (val_at q (2 * i + 2)) (val_at q i)" if "m = 2 * i + 2"
      proof -
        have "\<not> cmp q (val_at q (2 * i + 2)) (val_at q (2 * i + 1))"
          using c that m by (simp add: better_def)
        then show ?thesis
          using nb swo_negtrans [OF swo] unfolding r by blast
      qed
      then show ?thesis
        using mc nb r True by (auto simp: better_def)
    qed
  qed
qed

lemma sink_nat_unfold:
  assumes "j' = (if 2 * i + 1 + 1 < n \<and> better q (2 * i + 1 + 1) (2 * i + 1) then 2 * i + 1 + 1 else 2 * i + 1)"
  shows "sink_nat q i n = (if 2 * i + 1 < n \<and> better q j' i then sink_nat (exchange q i j') j' n else q)"
  unfolding assms by (subst sink_nat.simps) (simp add: Let_def)

lemma sink_nat_heap:
  assumes "strict_weak_order (cmp q)" "n \<le> length (pm q)" "down_hole n i q"
  shows "heap_upto n (sink_nat q i n)"
  using assms
proof (induction q i n rule: sink_nat.induct)
  case (1 q i n)
  define j' where "j' = (if 2 * i + 1 + 1 < n \<and> better q (2 * i + 1 + 1) (2 * i + 1) then 2 * i + 1 + 1 else 2 * i + 1)"
  show ?case
  proof (cases "2 * i + 1 < n \<and> better q j' i")
    case True
    then have "down_hole n j' (exchange q i j')"
      using "1.prems" j'_def by (intro down_hole_step) simp_all
    then have "heap_upto n (sink_nat (exchange q i j') j' n)"
      using "1.IH" [OF _ refl j'_def] True "1.prems" by simp
    then show ?thesis
      using True by (simp add: sink_nat_unfold [OF j'_def])
  next
    case False
    then show ?thesis
      using down_hole_done [OF "1.prems"(1,3) j'_def]
      by (auto simp: sink_nat_unfold [OF j'_def])
  qed
qed

subsection \<open>The index stays the inverse of the position map\<close>

lemma pm_exchange_nth:
  assumes "i < length (pm q)" "j < length (pm q)"
  shows "pm (exchange q i j) ! m = (if m = j then pm q ! i else if m = i then pm q ! j else pm q ! m)"
  using assms by (simp add: exchange_def nth_list_update)

lemma set_pm_exchange:
  assumes "i < length (pm q)" "j < length (pm q)"
  shows "set (pm (exchange q i j)) = set (pm q)"
  using assms by (simp add: exchange_def set_swap)

lemma consistent_exchange:
  assumes c: "consistent q" and i: "i < length (pm q)" and j: "j < length (pm q)"
  shows "consistent (exchange q i j)"
proof -
  have d: "distinct (pm q)" and inv: "\<And>m. m < length (pm q) \<Longrightarrow> im q (pm q ! m) = Some (of_nat m)"
    and dm: "dom (im q) = set (pm q)"
    using c by (simp_all add: consistent_def)
  have ne: "pm q ! a \<noteq> pm q ! b" if "a < length (pm q)" "b < length (pm q)" "a \<noteq> b" for a b
    using d that by (simp add: nth_eq_iff_index_eq)
  have "distinct (pm (exchange q i j))"
    using d i j by (simp add: exchange_def distinct_swap)
  moreover have "dom (im (exchange q i j)) = set (pm (exchange q i j))"
    using dm i j by (auto simp: exchange_def set_swap)
  moreover have "im (exchange q i j) (pm (exchange q i j) ! m) = Some (of_nat m)"
    if m: "m < length (pm q)" for m
  proof -
    have "im (exchange q i j) = (im q)(pm q ! j \<mapsto> of_nat i, pm q ! i \<mapsto> of_nat j)"
      by (simp add: exchange_def)
    then show ?thesis
      using ne [of m i] ne [of m j] ne [of i j] inv [OF m] i j m
      by (auto simp: pm_exchange_nth)
  qed
  ultimately show ?thesis
    using c set_pm_exchange [OF i j] by (simp add: consistent_def)
qed

lemma swim_nat_frame:
  assumes "consistent q" "i < length (pm q)"
  shows "consistent (swim_nat q i) \<and> vals (swim_nat q i) = vals q \<and> cmp (swim_nat q i) = cmp q \<and>
         length (pm (swim_nat q i)) = length (pm q) \<and>
         (\<forall>m. i < m \<longrightarrow> pm (swim_nat q i) ! m = pm q ! m)"
  using assms
proof (induction q i rule: swim_nat.induct)
  case (1 q i)
  show ?case
  proof (cases "0 < i \<and> better q i ((i - 1) div 2)")
    case True
    let ?p = "(i - 1) div 2"
    have p: "?p < i" "?p < length (pm q)" using True "1.prems"(2) by auto
    have "consistent (exchange q i ?p)"
      using "1.prems" p by (intro consistent_exchange) simp_all
    then have ih: "consistent (swim_nat (exchange q i ?p) ?p) \<and>
        vals (swim_nat (exchange q i ?p) ?p) = vals q \<and> cmp (swim_nat (exchange q i ?p) ?p) = cmp q \<and>
        length (pm (swim_nat (exchange q i ?p) ?p)) = length (pm q) \<and>
        (\<forall>m. ?p < m \<longrightarrow> pm (swim_nat (exchange q i ?p) ?p) ! m = pm (exchange q i ?p) ! m)"
      using "1.IH" [OF True] p by simp
    have "pm (swim_nat (exchange q i ?p) ?p) ! m = pm q ! m" if "i < m" for m
      using ih that p "1.prems"(2) by (simp add: pm_exchange_nth)
    moreover have "swim_nat q i = swim_nat (exchange q i ?p) ?p"
      using True by (subst swim_nat.simps) simp
    ultimately show ?thesis using ih by simp
  next
    case False
    then have "swim_nat q i = q" by (subst swim_nat.simps) auto
    then show ?thesis using "1.prems" by simp
  qed
qed

lemma sink_nat_frame:
  assumes "consistent q" "n \<le> length (pm q)"
  shows "consistent (sink_nat q i n) \<and> vals (sink_nat q i n) = vals q \<and> cmp (sink_nat q i n) = cmp q \<and>
         length (pm (sink_nat q i n)) = length (pm q) \<and>
         (\<forall>m. n \<le> m \<or> m < i \<longrightarrow> pm (sink_nat q i n) ! m = pm q ! m)"
  using assms
proof (induction q i n rule: sink_nat.induct)
  case (1 q i n)
  define j' where "j' = (if 2 * i + 1 + 1 < n \<and> better q (2 * i + 1 + 1) (2 * i + 1) then 2 * i + 1 + 1 else 2 * i + 1)"
  note unf = sink_nat_unfold [OF j'_def]
  show ?case
  proof (cases "2 * i + 1 < n \<and> better q j' i")
    case True
    have j: "i < j'" "j' < n" using True by (auto simp: j'_def)
    then have len: "i < length (pm q)" "j' < length (pm q)" using "1.prems"(2) by simp_all
    have "consistent (exchange q i j')"
      using "1.prems" len by (intro consistent_exchange) simp_all
    then have ih: "consistent (sink_nat (exchange q i j') j' n) \<and>
        vals (sink_nat (exchange q i j') j' n) = vals q \<and> cmp (sink_nat (exchange q i j') j' n) = cmp q \<and>
        length (pm (sink_nat (exchange q i j') j' n)) = length (pm q) \<and>
        (\<forall>m. n \<le> m \<or> m < j' \<longrightarrow> pm (sink_nat (exchange q i j') j' n) ! m = pm (exchange q i j') ! m)"
      using "1.IH" [OF _ refl j'_def] True "1.prems"(2) by simp
    have "pm (sink_nat (exchange q i j') j' n) ! m = pm q ! m" if "n \<le> m \<or> m < i" for m
      using ih that j len by (auto simp: pm_exchange_nth)
    then show ?thesis using ih True by (simp add: unf)
  next
    case False
    then have "sink_nat q i n = q" by (auto simp: unf)
    then show ?thesis using "1.prems" by simp
  qed
qed

subsection \<open>Machine integers and the functions of the source\<close>

lemma stb_over:
  fixes k :: int
  assumes "2 ^ 63 \<le> k" "k < 2 ^ 64"
  shows "signed_take_bit 63 k = k - 2 ^ 64"
proof -
  have "(k + 2 ^ 63) mod 2 ^ 64 = (k + 2 ^ 63 - 2 ^ 64) mod 2 ^ 64"
    by (metis mod_diff_right_eq mod_self diff_zero)
  also have "\<dots> = k + 2 ^ 63 - 2 ^ 64"
    using assms by (intro mod_pos_pos_trivial) simp_all
  finally show ?thesis
    by (simp add: signed_take_bit_eq_take_bit_shift take_bit_eq_mod)
qed

lemma sint_word_of_int_small:
  assumes "- (2 ^ 63) \<le> k" "k < 2 ^ 63"
  shows "sint (word_of_int k :: goint) = k"
proof -
  have "sint (word_of_int k :: goint) = signed_take_bit 63 k"
    by (simp only: sint_sbintrunc') simp
  then show ?thesis
    using assms by (simp add: signed_take_bit_int_eq_self)
qed

lemma sint_word_of_int_over:
  assumes "2 ^ 63 \<le> k" "k < 2 ^ 64"
  shows "sint (word_of_int k :: goint) = k - 2 ^ 64"
proof -
  have "sint (word_of_int k :: goint) = signed_take_bit 63 k"
    by (simp only: sint_sbintrunc') simp
  then show ?thesis
    using stb_over [OF assms] by simp
qed

lemma sint_bounds: "- (2 ^ 63) \<le> sint (w :: goint)" "sint (w :: goint) < 2 ^ 63"
  using sint_ge [of w] sint_lt [of w] by simp_all

lemma word_of_sint:
  assumes "sint (i :: goint) = int a"
  shows "i = of_nat a"
proof -
  have "i = word_of_int (sint i)" by simp
  also have "\<dots> = word_of_int (int a)" by (simp only: assms)
  finally show ?thesis by simp
qed

lemma sint_len:
  assumes "int (length xs) < 2 ^ 63"
  shows "sint (len xs) = int (length xs)"
proof -
  have "- (2 ^ 63) \<le> int (length xs)"
    by (rule order_trans [of _ 0]) simp_all
  then have "sint (word_of_int (int (length xs)) :: goint) = int (length xs)"
    using assms by (rule sint_word_of_int_small)
  then show ?thesis by (simp add: len_def)
qed

lemma sint_add_one:
  assumes "sint (j :: goint) + 1 < 2 ^ 63"
  shows "sint (j + 1) = sint j + 1"
proof -
  have "(word_of_int (sint j + 1) :: goint) = j + 1" by simp
  then have "sint (j + 1) = sint (word_of_int (sint j + 1) :: goint)" by simp
  also have "\<dots> = sint j + 1"
  proof (rule sint_word_of_int_small)
    show "- (2 ^ 63) \<le> sint j + 1" using sint_bounds(1) [of j] by simp
    show "sint j + 1 < 2 ^ 63" by (rule assms)
  qed
  finally show ?thesis .
qed

lemma sint_sub_one:
  assumes "- (2 ^ 63) < sint (j :: goint)"
  shows "sint (j - 1) = sint j - 1"
proof -
  have "(word_of_int (sint j - 1) :: goint) = j - 1" by simp
  then have "sint (j - 1) = sint (word_of_int (sint j - 1) :: goint)" by simp
  also have "\<dots> = sint j - 1"
  proof (rule sint_word_of_int_small)
    show "- (2 ^ 63) \<le> sint j - 1" using assms by simp
    show "sint j - 1 < 2 ^ 63" using sint_bounds(2) [of j] by simp
  qed
  finally show ?thesis .
qed

lemma sint_parent_int:
  assumes "0 < sint i"
  shows "sint (parent i) = (sint i - 1) div 2"
proof -
  have m: "sint (i - 1) = sint i - 1"
    using assms by (intro sint_sub_one) simp
  have d: "(sint i - 1) sdiv 2 = (sint i - 1) div 2"
    using assms by (simp add: signed_divide_int_def sgn_if)
  have "sint (word_of_int ((sint i - 1) div 2) :: goint) = (sint i - 1) div 2"
  proof (rule sint_word_of_int_small)
    have "0 \<le> (sint i - 1) div 2" using assms by simp
    then show "- (2 ^ 63) \<le> (sint i - 1) div 2" by simp
    have "(sint i - 1) div 2 \<le> sint i" using assms by simp
    then show "(sint i - 1) div 2 < 2 ^ 63" using sint_bounds(2) [of i] by simp
  qed
  then show ?thesis by (simp only: parent_def m d)
qed

lemma sint_parent:
  assumes "sint i = int a" "0 < a"
  shows "sint (parent i) = int ((a - 1) div 2)"
proof -
  have "sint (parent i) = (int a - 1) div 2"
    using sint_parent_int [of i] assms by simp
  also have "\<dots> = int ((a - 1) div 2)"
    using assms(2) by (simp add: zdiv_int of_nat_diff)
  finally show ?thesis .
qed

lemma sint_leftChild:
  assumes "0 \<le> sint i"
  shows "if 2 * sint i + 1 < 2 ^ 63 then sint (leftChild i) = 2 * sint i + 1 else sint (leftChild i) < 0"
proof -
  have "(word_of_int (2 * sint i + 1) :: goint) = leftChild i"
    by (simp add: leftChild_def mult.commute)
  then have e: "sint (leftChild i) = sint (word_of_int (2 * sint i + 1) :: goint)" by simp
  have hi: "2 * sint i + 1 < 2 ^ 64"
    using sint_bounds(2) [of i] by simp
  show ?thesis
  proof (cases "2 * sint i + 1 < 2 ^ 63")
    case True
    have "sint (word_of_int (2 * sint i + 1) :: goint) = 2 * sint i + 1"
    proof (rule sint_word_of_int_small)
      show "- (2 ^ 63) \<le> 2 * sint i + 1" using assms by simp
      show "2 * sint i + 1 < 2 ^ 63" by (rule True)
    qed
    then show ?thesis using True e by simp
  next
    case False
    have "sint (word_of_int (2 * sint i + 1) :: goint) = 2 * sint i + 1 - 2 ^ 64"
    proof (rule sint_word_of_int_over)
      show "2 ^ 63 \<le> 2 * sint i + 1" using False by simp
      show "2 * sint i + 1 < 2 ^ 64" by (rule hi)
    qed
    then have "sint (leftChild i) < 0" using hi e by simp
    then show ?thesis using False by simp
  qed
qed

lemma at_nat:
  assumes "sint i = int a" "a < length xs"
  shows "at xs i = Inr (xs ! a)"
  using assms by (simp add: at_def word_sle_eq)

lemma compare_nat:
  assumes "sint i = int a" "a < length (pm q)" "sint j = int b" "b < length (pm q)"
  shows "compare q i j = Inr (better q a b)"
  using assms by (simp add: compare_def at_nat better_def val_at_def)

lemma swap_nat:
  assumes "sint i = int a" "a < length (pm q)" "sint j = int b" "b < length (pm q)"
  shows "swap q i j = Inr (exchange q a b)"
proof -
  have "i = of_nat a" "j = of_nat b"
    using assms by (simp_all add: word_of_sint)
  moreover have "(pm q)[a := pm q ! b, b := pm q ! a] ! a = pm q ! b"
    "(pm q)[a := pm q ! b, b := pm q ! a] ! b = pm q ! a"
    using assms by (auto simp: nth_list_update)
  ultimately show ?thesis
    using assms by (simp add: swap_def at_nat exchange_def Let_def)
qed

lemma swim_refines:
  assumes "sint i = int a" "a < length (pm q)"
  shows "swim q i = Inr (swim_nat q a)"
  using assms
proof (induction q a arbitrary: i rule: swim_nat.induct)
  case (1 q a)
  show ?case
  proof (cases "0 < a")
    case False
    then have "\<not> 0 <s i" using "1.prems" by (simp add: word_sless_alt)
    then show ?thesis using False by (subst swim.simps, subst swim_nat.simps) simp
  next
    case True
    let ?p = "(a - 1) div 2"
    have pos: "0 <s i" using True "1.prems" by (simp add: word_sless_alt)
    have sp: "sint (parent i) = int ?p" using "1.prems" True by (intro sint_parent)
    have pl: "?p < length (pm q)" using "1.prems"(2) by simp
    have cmp: "compare q i (parent i) = Inr (better q a ?p)"
      using "1.prems" sp pl by (intro compare_nat)
    show ?thesis
    proof (cases "better q a ?p")
      case b: True
      have sw: "swap q i (parent i) = Inr (exchange q a ?p)"
        using "1.prems" sp pl by (intro swap_nat)
      have "swim (exchange q a ?p) (parent i) = Inr (swim_nat (exchange q a ?p) ?p)"
        using "1.IH" [of "parent i"] True b sp pl by simp
      then show ?thesis
        using pos cmp b sw True by (subst swim.simps, subst swim_nat.simps) simp
    next
      case b: False
      then show ?thesis
        using pos cmp by (subst swim.simps, subst swim_nat.simps) simp
    qed
  qed
qed

lemma sink_unfold:
  "sink q i n =
     (if leftChild i <s n then
        if leftChild i <s 0 then Inr q
        else
          (case (if leftChild i + 1 <s n then compare q (leftChild i + 1) (leftChild i) else Inr False) of
             Inl e \<Rightarrow> Inl e
           | Inr b \<Rightarrow>
               (case compare q (if b then leftChild i + 1 else leftChild i) i of Inl e \<Rightarrow> Inl e
                | Inr c \<Rightarrow>
                    if \<not> c then Inr q
                    else
                      (case swap q i (if b then leftChild i + 1 else leftChild i) of Inl e \<Rightarrow> Inl e
                       | Inr q' \<Rightarrow> sink q' (if b then leftChild i + 1 else leftChild i) n)))
      else Inr q)"
  by (subst sink.simps) (simp only: Let_def)

lemma sink_no_child:
  assumes "0 \<le> sint i" "\<not> 2 * sint i + 1 < sint n"
  shows "sink q i n = Inr q"
proof (cases "2 * sint i + 1 < 2 ^ 63")
  case True
  then have "sint (leftChild i) = 2 * sint i + 1"
    using sint_leftChild [OF assms(1)] by simp
  then have "\<not> leftChild i <s n"
    using assms(2) by (simp add: word_sless_alt)
  then show ?thesis by (simp add: sink_unfold)
next
  case False
  then have "sint (leftChild i) < 0"
    using sint_leftChild [OF assms(1)] by simp
  then have "leftChild i <s 0" by (simp add: word_sless_alt)
  then show ?thesis by (simp add: sink_unfold)
qed

lemma sink_refines:
  assumes "sint i = int a" "sint n = int N" "N \<le> length (pm q)"
  shows "sink q i n = Inr (sink_nat q a N)"
  using assms
proof (induction q a N arbitrary: i rule: sink_nat.induct)
  case (1 q a N)
  define j' where "j' = (if 2 * a + 1 + 1 < N \<and> better q (2 * a + 1 + 1) (2 * a + 1) then 2 * a + 1 + 1 else 2 * a + 1)"
  note unf = sink_nat_unfold [OF j'_def]
  have i0: "0 \<le> sint i" using "1.prems"(1) by simp
  show ?case
  proof (cases "2 * a + 1 < N")
    case False
    then have "\<not> 2 * sint i + 1 < sint n"
      using "1.prems"(1,2) by simp
    then have "sink q i n = Inr q" using i0 by (rule sink_no_child [rotated])
    then show ?thesis using False by (simp add: unf)
  next
    case l: True
    have nb: "sint n < 2 ^ 63" by (rule sint_bounds)
    have small: "2 * sint i + 1 < 2 ^ 63"
      using l "1.prems"(1,2) nb by linarith
    then have sl: "sint (leftChild i) = int (2 * a + 1)"
      using sint_leftChild [OF i0] "1.prems"(1) by simp
    have "sint (leftChild i) + 1 < 2 ^ 63"
      using sl l "1.prems"(2) nb by linarith
    then have sr: "sint (leftChild i + 1) = int (2 * a + 1 + 1)"
      using sint_add_one [of "leftChild i"] sl by simp
    have c1: "leftChild i <s n" "\<not> leftChild i <s 0"
      using sl l "1.prems"(2) by (simp_all add: word_sless_alt)
    have "leftChild i + 1 <s n \<longleftrightarrow> sint (leftChild i + 1) < sint n"
      by (rule word_sless_alt)
    also have "\<dots> \<longleftrightarrow> int (2 * a + 1 + 1) < int N"
      by (simp only: sr "1.prems"(2))
    also have "\<dots> \<longleftrightarrow> 2 * a + 1 + 1 < N"
      by (rule of_nat_less_iff)
    finally have c2: "leftChild i + 1 <s n \<longleftrightarrow> 2 * a + 1 + 1 < N" .
    have ll: "2 * a + 1 < length (pm q)" "a < length (pm q)"
      using l "1.prems"(3) by simp_all
    have c3: "(if leftChild i + 1 <s n then compare q (leftChild i + 1) (leftChild i) else Inr False)
        = Inr (2 * a + 1 + 1 < N \<and> better q (2 * a + 1 + 1) (2 * a + 1))"
    proof (cases "2 * a + 1 + 1 < N")
      case True
      then have "2 * a + 1 + 1 < length (pm q)" using "1.prems"(3) by simp
      then have "compare q (leftChild i + 1) (leftChild i) = Inr (better q (2 * a + 1 + 1) (2 * a + 1))"
        using sr sl ll by (intro compare_nat)
      then show ?thesis using True c2 by simp
    next
      case False
      then show ?thesis using c2 by simp
    qed
    define jw where "jw = (if 2 * a + 1 + 1 < N \<and> better q (2 * a + 1 + 1) (2 * a + 1) then leftChild i + 1 else leftChild i)"
    have sj: "sint jw = int j'"
      using sl sr by (simp add: jw_def j'_def)
    have jl: "j' < N" "j' < length (pm q)"
      using l "1.prems"(3) by (auto simp: j'_def)
    have c4: "compare q jw i = Inr (better q j' a)"
      using sj jl "1.prems"(1) ll by (intro compare_nat)
    have eq: "sink q i n =
        (if \<not> better q j' a then Inr q
         else (case swap q i jw of Inl e \<Rightarrow> Inl e | Inr q' \<Rightarrow> sink q' jw n))"
      by (subst sink_unfold)
        (simp only: c1 c3 if_True if_False sum.case jw_def [symmetric] c4)
    show ?thesis
    proof (cases "better q j' a")
      case False
      then show ?thesis using eq l by (simp add: unf)
    next
      case True
      have sw: "swap q i jw = Inr (exchange q a j')"
        using "1.prems"(1) ll sj jl by (intro swap_nat)
      have "sink (exchange q a j') jw n = Inr (sink_nat (exchange q a j') j' N)"
        using "1.IH" [OF l refl j'_def True sj "1.prems"(2)] "1.prems"(3) by simp
      then show ?thesis using eq sw True l by (simp add: unf)
    qed
  qed
qed

lemma sink_negative_bound:
  assumes "0 \<le> sint i" "sint n < 0"
  shows "sink q i n = Inr q"
  using assms by (intro sink_no_child) simp_all

subsection \<open>The public operations on consistent queues\<close>

lemma sint_of_nat_small:
  assumes "int a < 2 ^ 63"
  shows "sint (of_nat a :: goint) = int a"
proof -
  have "- (2 ^ 63) \<le> int a"
    by (rule order_trans [of _ 0]) simp_all
  then have "sint (word_of_int (int a) :: goint) = int a"
    using assms by (rule sint_word_of_int_small)
  then show ?thesis by simp
qed

lemma consistent_slot:
  assumes "consistent q" "a < length (pm q)"
  shows "sint (of_nat a :: goint) = int a" "im q (pm q ! a) = Some (of_nat a)"
proof -
  have "int a < 2 ^ 63" using assms by (simp add: consistent_def)
  then show "sint (of_nat a :: goint) = int a" by (rule sint_of_nat_small)
  show "im q (pm q ! a) = Some (of_nat a)" using assms by (simp add: consistent_def)
qed

lemma consistent_im:
  assumes "consistent q" "im q k = Some i"
  obtains a where "a < length (pm q)" "pm q ! a = k" "sint i = int a"
proof -
  have "k \<in> set (pm q)" using assms by (auto simp: consistent_def)
  then obtain a where a: "a < length (pm q)" "pm q ! a = k"
    by (auto simp: in_set_conv_nth)
  then have "i = of_nat a" using consistent_slot(2) [OF assms(1) a(1)] assms(2) by simp
  then have "sint i = int a" using consistent_slot(1) [OF assms(1) a(1)] by simp
  then show ?thesis using a that by blast
qed

lemma consistent_len:
  assumes "consistent q"
  shows "sint (len (pm q)) = int (length (pm q))"
  using assms by (intro sint_len) (simp add: consistent_def)

lemma consistent_len_0:
  assumes "consistent q"
  shows "len (pm q) = 0 \<longleftrightarrow> pm q = []"
proof
  assume "len (pm q) = 0"
  then have "sint (len (pm q)) = 0" by simp
  then show "pm q = []" using consistent_len [OF assms] by simp
qed (simp add: len_def)

lemma consistent_len_pred:
  assumes "consistent q" "pm q \<noteq> []"
  shows "sint (len (pm q) - 1) = int (length (pm q) - 1)"
proof -
  have "sint (len (pm q) - 1) = sint (len (pm q)) - 1"
    using consistent_len [OF assms(1)] by (intro sint_sub_one) simp
  then show ?thesis
    using consistent_len [OF assms(1)] assms(2) by (simp add: of_nat_diff Suc_leI)
qed

lemma consistent_maplen:
  assumes "consistent q"
  shows "sint (maplen (vals q)) = int (length (pm q))"
proof -
  have "card (dom (vals q)) = length (pm q)"
    using assms by (simp add: consistent_def distinct_card)
  then show ?thesis
    using consistent_len [OF assms] by (simp add: maplen_def len_def)
qed

lemma slice_to_nat:
  assumes "sint n = int N" "N \<le> length xs"
  shows "slice_to xs n = Inr (take N xs)"
  using assms by (simp add: slice_to_def word_sle_eq)

lemma sint_inject: "sint (v :: goint) = sint w \<longleftrightarrow> v = w"
  using word_eq_iff_signed [of v w, where ?'a = int] by simp

lemma Push_nat:
  assumes c: "consistent q" and k: "im q k = None" and room: "int (length (pm q)) + 1 < 2 ^ 63"
  shows "Push q k v =
    Inr (swim_nat (q\<lparr>pm := pm q @ [k], im := (im q)(k \<mapsto> len (pm q)), vals := (vals q)(k \<mapsto> v)\<rparr>)
           (length (pm q)), None)"
proof -
  let ?q1 = "q\<lparr>pm := pm q @ [k], im := (im q)(k \<mapsto> len (pm q)), vals := (vals q)(k \<mapsto> v)\<rparr>"
  have "swim ?q1 (len (pm q)) = Inr (swim_nat ?q1 (length (pm q)))"
    using consistent_len [OF c] by (intro swim_refines) simp_all
  then show ?thesis
    using k room by (simp add: Push_def append1_def Let_def)
qed

lemma Push_full:
  assumes "im q k = None" "\<not> int (length (pm q)) + 1 < 2 ^ 63"
  shows "Push q k v = Inl LenOutOfRange"
  using assms by (simp add: Push_def append1_def Let_def)

lemma Pop_nat:
  assumes c: "consistent q" and ne: "pm q \<noteq> []"
  shows "Pop q =
    Inr ((sink_nat (exchange q 0 (length (pm q) - 1)) 0 (length (pm q) - 1))
           \<lparr>pm := take (length (pm q) - 1) (pm (sink_nat (exchange q 0 (length (pm q) - 1)) 0 (length (pm q) - 1))),
            im := (im (sink_nat (exchange q 0 (length (pm q) - 1)) 0 (length (pm q) - 1)))(pm q ! 0 := None),
            vals := (vals (sink_nat (exchange q 0 (length (pm q) - 1)) 0 (length (pm q) - 1)))(pm q ! 0 := None)\<rparr>,
         pm q ! 0, val_at q 0, True)"
proof -
  let ?N = "length (pm q) - 1"
  let ?n = "len (pm q) - 1"
  let ?q2 = "sink_nat (exchange q 0 ?N) 0 ?N"
  have n: "sint ?n = int ?N" by (rule consistent_len_pred [OF c ne])
  have l0: "len (pm q) \<noteq> 0" using consistent_len_0 [OF c] ne by simp
  have N: "?N < length (pm q)" "0 < length (pm q)" using ne by simp_all
  have a0: "at (pm q) 0 = Inr (pm q ! 0)" using ne by (rule at_0)
  have sw: "swap q 0 ?n = Inr (exchange q 0 ?N)"
    by (rule swap_nat [OF _ N(2) n N(1)]) simp
  have si: "sink (exchange q 0 ?N) 0 ?n = Inr ?q2"
    by (rule sink_refines [OF _ n]) simp_all
  have "length (pm ?q2) = length (pm q)"
    using sink_nat_frame [of "exchange q 0 ?N" ?N 0] consistent_exchange [OF c N(2,1)] by simp
  then have sl: "slice_to (pm ?q2) ?n = Inr (take ?N (pm ?q2))"
    by (intro slice_to_nat [OF n]) simp
  show ?thesis
    unfolding Pop_def Let_def by (simp only: l0 a0 sw si sl if_False sum.case val_at_def)
qed

lemma Update_nat:
  assumes c: "consistent q" and a: "a < length (pm q)"
  shows "Update q (pm q ! a) v =
    Inr (sink_nat (swim_nat (q\<lparr>vals := (vals q)(pm q ! a \<mapsto> v)\<rparr>) a) a (length (pm q)), None)"
proof -
  let ?q1 = "q\<lparr>vals := (vals q)(pm q ! a \<mapsto> v)\<rparr>"
  note s = consistent_slot [OF c a]
  have c1: "consistent ?q1"
    using c a by (auto simp: consistent_def)
  have sw: "swim ?q1 (of_nat a) = Inr (swim_nat ?q1 a)"
    using s(1) a by (intro swim_refines) simp_all
  have fr: "consistent (swim_nat ?q1 a)" "length (pm (swim_nat ?q1 a)) = length (pm q)"
    using swim_nat_frame [OF c1, of a] a by simp_all
  have "sint (maplen (vals (swim_nat ?q1 a))) = int (length (pm q))"
    using consistent_maplen [OF fr(1)] fr(2) by simp
  then have "sink (swim_nat ?q1 a) (of_nat a) (maplen (vals (swim_nat ?q1 a)))
      = Inr (sink_nat (swim_nat ?q1 a) a (length (pm q)))"
    using s(1) fr(2) by (intro sink_refines) simp_all
  then show ?thesis
    using s(2) sw by (simp add: Update_def)
qed

lemma Remove_nat:
  assumes c: "consistent q" and a: "a < length (pm q)"
  shows "Remove q (pm q ! a) =
    Inr (let N = length (pm q) - 1;
             q3 = (if a \<noteq> N then swim_nat (sink_nat (exchange q a N) a N) a else q)
         in q3\<lparr>pm := take N (pm q3), im := (im q3)(pm q ! a := None),
                vals := (vals q3)(pm q ! a := None)\<rparr>)"
proof -
  let ?N = "length (pm q) - 1"
  let ?n = "len (pm q) - 1"
  let ?i = "of_nat a :: goint"
  let ?q3 = "if a \<noteq> ?N then swim_nat (sink_nat (exchange q a ?N) a ?N) a else q"
  note s = consistent_slot [OF c a]
  have ne: "pm q \<noteq> []" using a by auto
  have n: "sint ?n = int ?N" by (rule consistent_len_pred [OF c ne])
  have N: "?N < length (pm q)" using ne by simp
  have neq: "?i \<noteq> ?n \<longleftrightarrow> a \<noteq> ?N"
    unfolding sint_inject [symmetric] s(1) n by simp
  have mid: "(if ?i \<noteq> ?n then
               (case swap q ?i ?n of Inl e \<Rightarrow> Inl e
                | Inr q1 \<Rightarrow> (case sink q1 ?i ?n of Inl e \<Rightarrow> Inl e | Inr q2 \<Rightarrow> swim q2 ?i))
             else Inr q) = Inr ?q3"
  proof (cases "a = ?N")
    case True
    then show ?thesis using neq by simp
  next
    case False
    have sw: "swap q ?i ?n = Inr (exchange q a ?N)"
      using s(1) n a N by (intro swap_nat)
    have c1: "consistent (exchange q a ?N)" using c a N by (rule consistent_exchange)
    have si: "sink (exchange q a ?N) ?i ?n = Inr (sink_nat (exchange q a ?N) a ?N)"
      by (rule sink_refines [OF s(1) n]) simp
    have "length (pm (sink_nat (exchange q a ?N) a ?N)) = length (pm q)"
      using sink_nat_frame [OF c1, of ?N a] N by simp
    then have "swim (sink_nat (exchange q a ?N) a ?N) ?i = Inr (swim_nat (sink_nat (exchange q a ?N) a ?N) a)"
      using s(1) a by (intro swim_refines) simp_all
    then show ?thesis using False neq sw si by simp
  qed
  have "length (pm ?q3) = length (pm q)"
  proof (cases "a = ?N")
    case False
    have c1: "consistent (exchange q a ?N)" using c a N by (rule consistent_exchange)
    have c2: "consistent (sink_nat (exchange q a ?N) a ?N)"
      "length (pm (sink_nat (exchange q a ?N) a ?N)) = length (pm q)"
      using sink_nat_frame [OF c1, of ?N a] N by simp_all
    show ?thesis using swim_nat_frame [OF c2(1), of a] c2(2) a False by simp
  qed simp
  then have sl: "slice_to (pm ?q3) ?n = Inr (take ?N (pm ?q3))"
    by (intro slice_to_nat [OF n]) simp
  show ?thesis
    unfolding Remove_def Let_def by (simp only: s(2) option.case mid sum.case sl)
qed

subsection \<open>The bound of the downward pass\<close>

lemma exchange_take:
  assumes "i < N" "j < N" "N \<le> length (pm q)"
  shows "exchange (q\<lparr>pm := take N (pm q)\<rparr>) i j = (exchange q i j)\<lparr>pm := take N (pm (exchange q i j))\<rparr>"
  using assms by (simp add: exchange_def take_update_swap)

lemma better_take:
  assumes "i < N" "j < N"
  shows "better (q\<lparr>pm := take N (pm q)\<rparr>) i j = better q i j"
  using assms by (simp add: better_def val_at_def)

lemma sink_nat_take:
  assumes "N \<le> length (pm q)"
  shows "sink_nat (q\<lparr>pm := take N (pm q)\<rparr>) a N = (sink_nat q a N)\<lparr>pm := take N (pm (sink_nat q a N))\<rparr>"
  using assms
proof (induction q a N rule: sink_nat.induct)
  case (1 q a N)
  let ?qt = "q\<lparr>pm := take N (pm q)\<rparr>"
  define j' where "j' = (if 2 * a + 1 + 1 < N \<and> better q (2 * a + 1 + 1) (2 * a + 1) then 2 * a + 1 + 1 else 2 * a + 1)"
  note unf = sink_nat_unfold [OF j'_def]
  show ?case
  proof (cases "2 * a + 1 < N")
    case False
    then show ?thesis
      by (subst sink_nat.simps, subst (2 3) sink_nat.simps) simp
  next
    case l: True
    have jt: "j' = (if 2 * a + 1 + 1 < N \<and> better ?qt (2 * a + 1 + 1) (2 * a + 1) then 2 * a + 1 + 1 else 2 * a + 1)"
      using l by (auto simp: j'_def better_take)
    note unft = sink_nat_unfold [OF jt]
    have j: "a < N" "j' < N" using l by (auto simp: j'_def)
    have bt: "better ?qt j' a = better q j' a" using j by (simp add: better_take)
    show ?thesis
    proof (cases "better q j' a")
      case False
      then show ?thesis using bt by (simp add: unf unft)
    next
      case True
      have "sink_nat ((exchange q a j')\<lparr>pm := take N (pm (exchange q a j'))\<rparr>) j' N =
            (sink_nat (exchange q a j') j' N)\<lparr>pm := take N (pm (sink_nat (exchange q a j') j' N))\<rparr>"
        using "1.IH" [OF l refl j'_def True] "1.prems" by simp
      then show ?thesis
        using True bt l exchange_take [OF j "1.prems"] by (simp add: unf unft)
    qed
  qed
qed

subsection \<open>Consistency is kept by every call\<close>

lemma drop_last_consistent:
  assumes c: "consistent q" and l: "length (pm q) = Suc N"
  shows "consistent (q\<lparr>pm := take N (pm q), im := (im q)(pm q ! N := None),
                       vals := (vals q)(pm q ! N := None)\<rparr>)"
proof -
  obtain ys k where xs: "pm q = ys @ [k]"
    using l by (cases "pm q" rule: rev_cases) auto
  have ly: "length ys = N" using l xs by simp
  have tk: "take N (pm q) = ys" "pm q ! N = k"
    unfolding xs ly [symmetric] by simp_all
  have d: "distinct ys" "k \<notin> set ys"
    using c by (simp_all add: consistent_def xs)
  have b: "int (length ys) < 2 ^ 63"
    using c by (simp add: consistent_def xs)
  have di: "dom (im q) = insert k (set ys)" and dv: "dom (vals q) = insert k (set ys)"
    using c by (simp_all add: consistent_def xs)
  have inv: "im q (ys ! i) = Some (of_nat i)" if "i < N" for i
  proof -
    have "im q (pm q ! i) = Some (of_nat i)"
      using c that l by (simp add: consistent_def)
    then show ?thesis using that ly by (simp add: xs nth_append)
  qed
  have ne: "ys ! i \<noteq> k" if "i < N" for i
    using d(2) that ly by (metis nth_mem)
  show ?thesis
    unfolding consistent_def tk using d b di dv inv ne ly by auto
qed

lemma push_slot_consistent:
  assumes c: "consistent q" and k: "im q k = None" and room: "int (length (pm q)) + 1 < 2 ^ 63"
  shows "consistent (q\<lparr>pm := pm q @ [k], im := (im q)(k \<mapsto> len (pm q)), vals := (vals q)(k \<mapsto> v)\<rparr>)"
proof -
  have notin: "k \<notin> set (pm q)" using c k by (auto simp: consistent_def)
  have "((im q)(k \<mapsto> len (pm q))) ((pm q @ [k]) ! i) = Some (of_nat i)" if "i < Suc (length (pm q))" for i
  proof (cases "i < length (pm q)")
    case True
    then have "(pm q @ [k]) ! i = pm q ! i" "pm q ! i \<noteq> k"
      using notin by (auto simp: nth_append)
    then show ?thesis using c True by (simp add: consistent_def)
  next
    case False
    then have "i = length (pm q)" using that by simp
    then show ?thesis by (simp add: len_def)
  qed
  then show ?thesis
    using c notin room by (auto simp: consistent_def)
qed

lemma Push_consistent:
  assumes c: "consistent q" and k: "im q k = None" and room: "int (length (pm q)) + 1 < 2 ^ 63"
  shows "\<exists>q'. Push q k v = Inr (q', None) \<and> consistent q' \<and> cmp q' = cmp q \<and>
           vals q' = (vals q)(k \<mapsto> v)"
  using Push_nat [OF assms, of v]
    swim_nat_frame [OF push_slot_consistent [OF assms, of v], of "length (pm q)"]
  by simp

lemma Pop_consistent:
  assumes c: "consistent q" and ne: "pm q \<noteq> []"
  shows "\<exists>q'. Pop q = Inr (q', pm q ! 0, val_at q 0, True) \<and> consistent q' \<and> cmp q' = cmp q \<and>
           vals q' = (vals q)(pm q ! 0 := None)"
proof -
  let ?N = "length (pm q) - 1"
  let ?q2 = "sink_nat (exchange q 0 ?N) 0 ?N"
  have N: "0 < length (pm q)" "?N < length (pm q)" using ne by simp_all
  have c1: "consistent (exchange q 0 ?N)" using c N by (rule consistent_exchange)
  note fr = sink_nat_frame [OF c1, of ?N 0]
  have fr': "consistent ?q2" "vals ?q2 = vals q" "cmp ?q2 = cmp q" "length (pm ?q2) = Suc ?N"
    "pm ?q2 ! ?N = pm q ! 0"
    using fr N by (simp_all add: pm_exchange_nth)
  show ?thesis
    using Pop_nat [OF c ne] drop_last_consistent [OF fr'(1,4)] fr' by simp
qed

lemma Update_consistent:
  assumes c: "consistent q" and a: "a < length (pm q)"
  shows "\<exists>q'. Update q (pm q ! a) v = Inr (q', None) \<and> consistent q' \<and> cmp q' = cmp q \<and>
           vals q' = (vals q)(pm q ! a \<mapsto> v)"
proof -
  let ?q1 = "q\<lparr>vals := (vals q)(pm q ! a \<mapsto> v)\<rparr>"
  have c1: "consistent ?q1" using c a by (auto simp: consistent_def)
  note f1 = swim_nat_frame [OF c1, of a]
  have c2: "consistent (swim_nat ?q1 a)" "length (pm q) \<le> length (pm (swim_nat ?q1 a))"
    using f1 a by simp_all
  note f2 = sink_nat_frame [OF c2, of a]
  show ?thesis
    using Update_nat [OF c a, of v] f1 f2 a by simp
qed

lemma Remove_consistent:
  assumes c: "consistent q" and a: "a < length (pm q)"
  shows "\<exists>q'. Remove q (pm q ! a) = Inr q' \<and> consistent q' \<and> cmp q' = cmp q \<and>
           vals q' = (vals q)(pm q ! a := None)"
proof -
  define N where "N = length (pm q) - 1"
  define q3 where "q3 = (if a \<noteq> N then swim_nat (sink_nat (exchange q a N) a N) a else q)"
  have N: "N < length (pm q)" "length (pm q) = Suc N" using a by (simp_all add: N_def)
  have fr: "consistent q3 \<and> vals q3 = vals q \<and> cmp q3 = cmp q \<and> length (pm q3) = Suc N \<and>
    pm q3 ! N = pm q ! a"
  proof (cases "a = N")
    case True
    then show ?thesis using c N by (simp add: q3_def)
  next
    case False
    then have lt: "a < N" using a N by simp
    have c1: "consistent (exchange q a N)" using c a N(1) by (rule consistent_exchange)
    note f1 = sink_nat_frame [OF c1, of N a]
    have c2: "consistent (sink_nat (exchange q a N) a N)" "a < length (pm (sink_nat (exchange q a N) a N))"
      using f1 a N by simp_all
    note f2 = swim_nat_frame [OF c2]
    show ?thesis using f1 f2 lt a N False by (simp add: pm_exchange_nth q3_def)
  qed
  have R: "Remove q (pm q ! a) =
      Inr (q3\<lparr>pm := take N (pm q3), im := (im q3)(pm q ! a := None), vals := (vals q3)(pm q ! a := None)\<rparr>)"
    using Remove_nat [OF c a] by (simp only: Let_def q3_def N_def)
  have "consistent (q3\<lparr>pm := take N (pm q3), im := (im q3)(pm q3 ! N := None),
      vals := (vals q3)(pm q3 ! N := None)\<rparr>)"
    using fr by (intro drop_last_consistent) simp_all
  then have "consistent (q3\<lparr>pm := take N (pm q3), im := (im q3)(pm q ! a := None),
      vals := (vals q3)(pm q ! a := None)\<rparr>)"
    using fr by simp
  then show ?thesis
    using R fr by simp
qed

lemma perform_consistent:
  assumes c: "consistent q"
  shows "perform q c = Inl LenOutOfRange \<or>
         (\<exists>q'. perform q c = Inr q' \<and> consistent q' \<and> cmp q' = cmp q)"
proof (cases c)
  case (CallPush k v)
  show ?thesis
  proof (cases "im q k")
    case None
    show ?thesis
    proof (cases "int (length (pm q)) + 1 < 2 ^ 63")
      case True
      then show ?thesis using Push_consistent [OF c None True, of v] CallPush by auto
    next
      case False
      then show ?thesis using Push_full [OF None False, of v] CallPush by simp
    qed
  next
    case (Some i)
    then show ?thesis using c CallPush by (simp add: Push_def)
  qed
next
  case CallPop
  show ?thesis
  proof (cases "pm q = []")
    case True
    then show ?thesis using c CallPop by (simp add: Pop_def len_Nil)
  next
    case False
    then show ?thesis using Pop_consistent [OF c False] CallPop by auto
  qed
next
  case (CallUpdate k v)
  show ?thesis
  proof (cases "im q k")
    case None
    then show ?thesis using c CallUpdate by (simp add: Update_def)
  next
    case (Some i)
    then obtain a where "a < length (pm q)" "pm q ! a = k"
      using consistent_im [OF c Some] by blast
    then show ?thesis using Update_consistent [OF c, of a v] CallUpdate by auto
  qed
next
  case (CallRemove k)
  show ?thesis
  proof (cases "im q k")
    case None
    then show ?thesis using c CallRemove by (simp add: Remove_def)
  next
    case (Some i)
    then obtain a where "a < length (pm q)" "pm q ! a = k"
      using consistent_im [OF c Some] by blast
    then show ?thesis using Remove_consistent [OF c, of a] CallRemove by auto
  qed
qed

lemma run_consistent:
  assumes "consistent q"
  shows "run q cs = Inl LenOutOfRange \<or> (\<exists>q'. run q cs = Inr q' \<and> consistent q' \<and> cmp q' = cmp q)"
  using assms
proof (induction cs arbitrary: q)
  case Nil
  then show ?case by simp
next
  case (Cons c cs)
  from perform_consistent [OF Cons.prems, of c] show ?case
  proof
    assume "perform q c = Inl LenOutOfRange"
    then show ?thesis by simp
  next
    assume "\<exists>q'. perform q c = Inr q' \<and> consistent q' \<and> cmp q' = cmp q"
    then obtain q' where q': "perform q c = Inr q'" "consistent q'" "cmp q' = cmp q" by blast
    then show ?thesis using Cons.IH [OF q'(2)] by auto
  qed
qed

lemma consistent_fresh: "consistent \<lparr>pm = [], im = Map.empty, vals = Map.empty, cmp = f\<rparr>"
  by (simp add: consistent_def)

subsection \<open>The heap property is kept by every call\<close>

lemma swim_nat_fields [simp]:
  "length (pm (swim_nat q i)) = length (pm q)" "cmp (swim_nat q i) = cmp q"
  "vals (swim_nat q i) = vals q"
proof (induction q i rule: swim_nat.induct)
  case (1 q i)
  {
    case 1
    show ?case using "1.IH"(1) by (subst swim_nat.simps) simp
  next
    case 2
    show ?case using "1.IH"(2) by (subst swim_nat.simps) simp
  next
    case 3
    show ?case using "1.IH"(3) by (subst swim_nat.simps) simp
  }
qed

lemma sink_nat_fields [simp]:
  "length (pm (sink_nat q i n)) = length (pm q)" "cmp (sink_nat q i n) = cmp q"
  "vals (sink_nat q i n) = vals q"
proof (induction q i n rule: sink_nat.induct)
  case (1 q i n)
  define j' where "j' = (if 2 * i + 1 + 1 < n \<and> better q (2 * i + 1 + 1) (2 * i + 1) then 2 * i + 1 + 1 else 2 * i + 1)"
  note unf = sink_nat_unfold [OF j'_def]
  {
    case 1
    show ?case using "1.IH"(1) [OF _ refl j'_def] by (simp add: unf)
  next
    case 2
    show ?case using "1.IH"(2) [OF _ refl j'_def] by (simp add: unf)
  next
    case 3
    show ?case using "1.IH"(3) [OF _ refl j'_def] by (simp add: unf)
  }
qed

lemma heap_upto_cong:
  assumes "cmp q' = cmp q" "\<And>j. j < n \<Longrightarrow> val_at q' j = val_at q j"
  shows "heap_upto n q' = heap_upto n q"
proof -
  have "better q' j ((j - 1) div 2) = better q j ((j - 1) div 2)" if "0 < j" "j < n" for j
  proof -
    have "(j - 1) div 2 < n" using that by simp
    then show ?thesis using assms that by (simp add: better_def)
  qed
  then show ?thesis by (auto simp: heap_upto_def)
qed

lemma heap_upto_less: "heap_upto n q \<Longrightarrow> m \<le> n \<Longrightarrow> heap_upto m q"
  by (simp add: heap_upto_def)

lemma heap_edge:
  assumes "heap_upto n q" "0 < j" "j < n"
  shows "\<not> cmp q (val_at q j) (val_at q ((j - 1) div 2))"
  using assms by (simp add: heap_upto_def better_def)

lemma heap_grandparent:
  assumes swo: "strict_weak_order (cmp q)" and h: "heap_upto n q"
    and c: "0 < i" "c < n" "0 < c" "(c - 1) div 2 = i"
  shows "\<not> cmp q (val_at q c) (val_at q ((i - 1) div 2))"
proof -
  have "i < n" using c parent_less [of c] by simp
  then have "\<not> cmp q (val_at q i) (val_at q ((i - 1) div 2))"
    using heap_edge [OF h c(1)] by simp
  moreover have "\<not> cmp q (val_at q c) (val_at q i)"
    using heap_edge [OF h c(3,2)] c(4) by simp
  ultimately show ?thesis using swo_negtrans [OF swo] by blast
qed

lemma heap_imp_up_hole:
  assumes "strict_weak_order (cmp q)" "heap_upto n q"
  shows "up_hole n i q"
  unfolding up_hole_def using heap_edge [OF assms(2)] heap_grandparent [OF assms]
  by (auto simp: better_def)

lemma heap_imp_down_hole:
  assumes "strict_weak_order (cmp q)" "heap_upto n q"
  shows "down_hole n i q"
  unfolding down_hole_def using heap_edge [OF assms(2)] heap_grandparent [OF assms]
  by (auto simp: better_def)

lemma sink_nat_id:
  assumes "\<And>c. c < n \<Longrightarrow> 0 < c \<Longrightarrow> (c - 1) div 2 = i \<Longrightarrow> \<not> better q c i"
  shows "sink_nat q i n = q"
proof -
  define j' where "j' = (if 2 * i + 1 + 1 < n \<and> better q (2 * i + 1 + 1) (2 * i + 1) then 2 * i + 1 + 1 else 2 * i + 1)"
  have "\<not> better q j' i" if "2 * i + 1 < n"
  proof -
    have "j' < n" "0 < j'" "(j' - 1) div 2 = i" using that by (auto simp: j'_def)
    then show ?thesis by (rule assms)
  qed
  then show ?thesis by (auto simp: sink_nat_unfold [OF j'_def])
qed

lemma sink_nat_heap_id:
  assumes "heap_upto n q"
  shows "sink_nat q i n = q"
  using assms by (intro sink_nat_id) (auto simp: heap_upto_def)

lemma swim_nat_id:
  assumes "\<not> (0 < i \<and> better q i ((i - 1) div 2))"
  shows "swim_nat q i = q"
  using assms by (subst swim_nat.simps) auto

text \<open>
  A heap in which the entry of one slot \<open>a\<close> has been replaced: the edges away from
  \<open>a\<close> are in order, and so are the children of \<open>a\<close> against its parent.
\<close>

lemma replaced_slot:
  assumes swo: "strict_weak_order (cmp q0)" and cq: "cmp q1 = cmp q0" and h: "heap_upto n q0"
    and same: "\<forall>j<n. j \<noteq> a \<longrightarrow> val_at q1 j = val_at q0 j"
  shows "\<And>j. 0 < j \<Longrightarrow> j < n \<Longrightarrow> j \<noteq> a \<Longrightarrow> (j - 1) div 2 \<noteq> a \<Longrightarrow> \<not> better q1 j ((j - 1) div 2)"
    and "\<And>c. 0 < a \<Longrightarrow> c < n \<Longrightarrow> 0 < c \<Longrightarrow> (c - 1) div 2 = a \<Longrightarrow> \<not> better q1 c ((a - 1) div 2)"
    and "\<And>c. 0 < a \<Longrightarrow> better q1 a ((a - 1) div 2) \<Longrightarrow> c < n \<Longrightarrow> 0 < c \<Longrightarrow> (c - 1) div 2 = a
           \<Longrightarrow> \<not> better q1 c a"
proof -
  show 1: "\<not> better q1 j ((j - 1) div 2)" if "0 < j" "j < n" "j \<noteq> a" "(j - 1) div 2 \<noteq> a" for j
  proof -
    have "(j - 1) div 2 < n" using that by simp
    then show ?thesis
      using heap_edge [OF h that(1,2)] same that cq by (simp add: better_def)
  qed
  show 2: "\<not> better q1 c ((a - 1) div 2)" if "0 < a" "c < n" "0 < c" "(c - 1) div 2 = a" for c
  proof -
    have ac: "a < c" using that parent_less [of c] by simp
    have "(a - 1) div 2 < a" using that by simp
    then have "(a - 1) div 2 < n" "(a - 1) div 2 \<noteq> a" "c \<noteq> a" using ac that by simp_all
    then show ?thesis
      using heap_grandparent [OF swo h that] same that cq by (simp add: better_def)
  qed
  show "\<not> better q1 c a"
    if "0 < a" "better q1 a ((a - 1) div 2)" "c < n" "0 < c" "(c - 1) div 2 = a" for c
  proof
    assume "better q1 c a"
    then have "better q1 c ((a - 1) div 2)"
      using that(2) swo_trans [OF swo] cq unfolding better_def by metis
    then show False using 2 that by blast
  qed
qed

lemma replaced_up_hole:
  assumes swo: "strict_weak_order (cmp q0)" and cq: "cmp q1 = cmp q0" and h: "heap_upto n q0"
    and same: "\<forall>j<n. j \<noteq> a \<longrightarrow> val_at q1 j = val_at q0 j"
    and b: "0 < a" "better q1 a ((a - 1) div 2)"
  shows "up_hole n a q1"
  unfolding up_hole_def
proof (intro conjI allI impI)
  note r = replaced_slot [OF swo cq h same]
  fix j assume j: "0 < j \<and> j < n \<and> j \<noteq> a"
  show "\<not> better q1 j ((j - 1) div 2)"
  proof (cases "(j - 1) div 2 = a")
    case True
    then show ?thesis using r(3) [of j] b j by blast
  next
    case False
    then show ?thesis using r(1) [of j] j by simp
  qed
next
  note r = replaced_slot [OF swo cq h same]
  fix c assume "0 < a \<and> c < n \<and> 0 < c \<and> (c - 1) div 2 = a"
  then show "\<not> better q1 c ((a - 1) div 2)" using r(2) [of c] by simp
qed

lemma replaced_down_hole:
  assumes swo: "strict_weak_order (cmp q0)" and cq: "cmp q1 = cmp q0" and h: "heap_upto n q0"
    and same: "\<forall>j<n. j \<noteq> a \<longrightarrow> val_at q1 j = val_at q0 j"
    and b: "\<not> (0 < a \<and> better q1 a ((a - 1) div 2))"
  shows "down_hole n a q1"
  unfolding down_hole_def
proof (intro conjI allI impI)
  note r = replaced_slot [OF swo cq h same]
  fix j assume j: "0 < j \<and> j < n \<and> (j - 1) div 2 \<noteq> a"
  show "\<not> better q1 j ((j - 1) div 2)"
  proof (cases "j = a")
    case True
    from j have "0 < a" unfolding True by simp
    with b have "\<not> better q1 a ((a - 1) div 2)" by blast
    then show ?thesis unfolding True .
  next
    case False
    then show ?thesis using r(1) [of j] j by simp
  qed
next
  note r = replaced_slot [OF swo cq h same]
  fix c assume "0 < a \<and> c < n \<and> 0 < c \<and> (c - 1) div 2 = a"
  then show "\<not> better q1 c ((a - 1) div 2)" using r(2) [of c] by simp
qed

lemma repair_up_then_down:
  assumes swo: "strict_weak_order (cmp q0)" and cq: "cmp q1 = cmp q0" and h: "heap_upto n q0"
    and same: "\<forall>j<n. j \<noteq> a \<longrightarrow> val_at q1 j = val_at q0 j"
    and a: "a < n" "n \<le> length (pm q1)"
  shows "heap_upto n (sink_nat (swim_nat q1 a) a n) \<and>
         (swim_nat q1 a = q1 \<or> sink_nat (swim_nat q1 a) a n = swim_nat q1 a)"
proof -
  have swo1: "strict_weak_order (cmp q1)" using swo cq by simp
  show ?thesis
  proof (cases "0 < a \<and> better q1 a ((a - 1) div 2)")
    case True
    then have "up_hole n a q1"
      by (intro replaced_up_hole [OF swo cq h same]) simp_all
    then have "heap_upto n (swim_nat q1 a)"
      using swo1 a by (intro swim_nat_heap)
    then show ?thesis by (simp add: sink_nat_heap_id)
  next
    case False
    then have id: "swim_nat q1 a = q1" by (rule swim_nat_id)
    have "down_hole n a q1"
      using False by (intro replaced_down_hole [OF swo cq h same]) simp_all
    then have "heap_upto n (sink_nat q1 a n)"
      using swo1 a by (intro sink_nat_heap)
    then show ?thesis by (simp add: id)
  qed
qed

lemma repair_down_then_up:
  assumes swo: "strict_weak_order (cmp q0)" and cq: "cmp q1 = cmp q0" and h: "heap_upto n q0"
    and same: "\<forall>j<n. j \<noteq> a \<longrightarrow> val_at q1 j = val_at q0 j"
    and a: "a < n" "n \<le> length (pm q1)"
  shows "heap_upto n (swim_nat (sink_nat q1 a n) a)"
proof -
  note r = replaced_slot [OF swo cq h same]
  have swo1: "strict_weak_order (cmp q1)" using swo cq by simp
  show ?thesis
  proof (cases "0 < a \<and> better q1 a ((a - 1) div 2)")
    case True
    have id: "sink_nat q1 a n = q1"
      using r(3) True by (intro sink_nat_id) blast
    have "up_hole n a q1"
      using True by (intro replaced_up_hole [OF swo cq h same]) simp_all
    then have "heap_upto n (swim_nat q1 a)"
      using swo1 a by (intro swim_nat_heap)
    then show ?thesis by (simp add: id)
  next
    case False
    have "down_hole n a q1"
      using False by (intro replaced_down_hole [OF swo cq h same]) simp_all
    then have "heap_upto n (sink_nat q1 a n)"
      using swo1 a by (intro sink_nat_heap)
    then have "up_hole n a (sink_nat q1 a n)"
      using swo1 by (intro heap_imp_up_hole) simp_all
    then show ?thesis
      using swo1 a by (intro swim_nat_heap) simp_all
  qed
qed

lemma mapget_other [simp]:
  "x \<noteq> k \<Longrightarrow> mapget (m(k \<mapsto> v)) x = mapget m x"
  "x \<noteq> k \<Longrightarrow> mapget (m(k := None)) x = mapget m x"
  by (simp_all add: mapget_def)

lemma drop_last_heap:
  assumes c: "consistent q" and l: "length (pm q) = Suc N" and h: "heap_upto N q"
  shows "heap_upto N (q\<lparr>pm := take N (pm q), im := m, vals := (vals q)(pm q ! N := None)\<rparr>)"
proof -
  have d: "distinct (pm q)" using c by (simp add: consistent_def)
  have "pm q ! j \<noteq> pm q ! N" if "j < N" for j
    using d that l by (simp add: nth_eq_iff_index_eq)
  then have "val_at (q\<lparr>pm := take N (pm q), im := m, vals := (vals q)(pm q ! N := None)\<rparr>) j = val_at q j"
    if "j < N" for j
    using that by (simp add: val_at_def)
  then show ?thesis using h by (subst heap_upto_cong [of _ q]) simp_all
qed

lemma Push_heap:
  assumes swo: "strict_weak_order (cmp q)" and c: "consistent q" and h: "heap_upto (length (pm q)) q"
    and k: "im q k = None"
  shows "heap_upto (Suc (length (pm q)))
    (swim_nat (q\<lparr>pm := pm q @ [k], im := (im q)(k \<mapsto> len (pm q)), vals := (vals q)(k \<mapsto> v)\<rparr>) (length (pm q)))"
proof -
  let ?q1 = "q\<lparr>pm := pm q @ [k], im := (im q)(k \<mapsto> len (pm q)), vals := (vals q)(k \<mapsto> v)\<rparr>"
  let ?n = "length (pm q)"
  have notin: "k \<notin> set (pm q)" using c k by (auto simp: consistent_def)
  have v: "val_at ?q1 j = val_at q j" if "j < ?n" for j
  proof -
    have "pm q ! j \<noteq> k" using notin that by (metis nth_mem)
    then show ?thesis using that by (simp add: val_at_def nth_append)
  qed
  have "\<not> better ?q1 j ((j - 1) div 2)" if "0 < j" "j < ?n" for j
  proof -
    have "(j - 1) div 2 < ?n" using that by simp
    then show ?thesis using heap_edge [OF h that] v that by (simp add: better_def)
  qed
  moreover have "\<not> (c < Suc ?n \<and> 0 < c \<and> (c - 1) div 2 = ?n)" for c
    by auto
  ultimately have "up_hole (Suc ?n) ?n ?q1"
    unfolding up_hole_def by (metis less_Suc_eq)
  then show ?thesis
    using swo by (intro swim_nat_heap) simp_all
qed

lemma Pop_heap:
  assumes swo: "strict_weak_order (cmp q)" and h: "heap_upto (length (pm q)) q" and ne: "pm q \<noteq> []"
  shows "heap_upto (length (pm q) - 1) (sink_nat (exchange q 0 (length (pm q) - 1)) 0 (length (pm q) - 1))"
proof -
  define N where "N = length (pm q) - 1"
  have N: "0 < length (pm q)" "N < length (pm q)" using ne by (simp_all add: N_def)
  have "\<not> better (exchange q 0 N) j ((j - 1) div 2)" if "0 < j" "j < N" "(j - 1) div 2 \<noteq> 0" for j
  proof -
    have "(j - 1) div 2 < j" using that by simp
    then have "(j - 1) div 2 \<noteq> N" "j \<noteq> N" "j \<noteq> 0" using that by simp_all
    moreover have "\<not> cmp q (val_at q j) (val_at q ((j - 1) div 2))"
      using heap_edge [OF h that(1)] that(2) N by simp
    ultimately show ?thesis
      using that(3) by (simp add: better_exchange [OF N])
  qed
  then have "down_hole N 0 (exchange q 0 N)"
    by (simp add: down_hole_def)
  then show ?thesis
    unfolding N_def [symmetric] using swo N by (intro sink_nat_heap) simp_all
qed

lemma Update_heap:
  assumes swo: "strict_weak_order (cmp q)" and c: "consistent q" and h: "heap_upto (length (pm q)) q"
    and a: "a < length (pm q)"
  shows "heap_upto (length (pm q))
           (sink_nat (swim_nat (q\<lparr>vals := (vals q)(pm q ! a \<mapsto> v)\<rparr>) a) a (length (pm q))) \<and>
         (swim_nat (q\<lparr>vals := (vals q)(pm q ! a \<mapsto> v)\<rparr>) a = q\<lparr>vals := (vals q)(pm q ! a \<mapsto> v)\<rparr> \<or>
          sink_nat (swim_nat (q\<lparr>vals := (vals q)(pm q ! a \<mapsto> v)\<rparr>) a) a (length (pm q)) =
            swim_nat (q\<lparr>vals := (vals q)(pm q ! a \<mapsto> v)\<rparr>) a)"
proof (rule repair_up_then_down [OF swo _ h _ a])
  show "\<forall>j<length (pm q). j \<noteq> a \<longrightarrow> val_at (q\<lparr>vals := (vals q)(pm q ! a \<mapsto> v)\<rparr>) j = val_at q j"
  proof (intro allI impI)
    fix j assume "j < length (pm q)" "j \<noteq> a"
    then have "pm q ! j \<noteq> pm q ! a"
      using c a by (simp add: consistent_def nth_eq_iff_index_eq)
    then show "val_at (q\<lparr>vals := (vals q)(pm q ! a \<mapsto> v)\<rparr>) j = val_at q j"
      by (simp add: val_at_def)
  qed
qed simp_all

lemma Remove_heap:
  assumes swo: "strict_weak_order (cmp q)" and h: "heap_upto (length (pm q)) q"
    and a: "a < length (pm q) - 1"
  shows "heap_upto (length (pm q) - 1)
           (swim_nat (sink_nat (exchange q a (length (pm q) - 1)) a (length (pm q) - 1)) a)"
proof -
  define N where "N = length (pm q) - 1"
  have N: "a < length (pm q)" "N < length (pm q)" "a < N" using a by (simp_all add: N_def)
  have h': "heap_upto N q" using h by (rule heap_upto_less) (simp add: N_def)
  have "heap_upto N (swim_nat (sink_nat (exchange q a N) a N) a)"
  proof (rule repair_down_then_up [OF swo _ h' _ N(3)])
    show "\<forall>j<N. j \<noteq> a \<longrightarrow> val_at (exchange q a N) j = val_at q j"
      by (simp add: val_at_exchange [OF N(1,2)])
  qed (use N in simp_all)
  then show ?thesis by (simp add: N_def)
qed

lemma Pop_mid:
  assumes c: "consistent q" and ne: "pm q \<noteq> []"
  shows "consistent (sink_nat (exchange q 0 (length (pm q) - 1)) 0 (length (pm q) - 1))"
    and "pm (sink_nat (exchange q 0 (length (pm q) - 1)) 0 (length (pm q) - 1)) ! (length (pm q) - 1) = pm q ! 0"
proof -
  let ?N = "length (pm q) - 1"
  have N: "0 < length (pm q)" "?N < length (pm q)" using ne by simp_all
  have c1: "consistent (exchange q 0 ?N)" using c N by (rule consistent_exchange)
  note fr = sink_nat_frame [OF c1, of ?N 0]
  show "consistent (sink_nat (exchange q 0 ?N) 0 ?N)" using fr N by simp
  show "pm (sink_nat (exchange q 0 ?N) 0 ?N) ! ?N = pm q ! 0"
    using fr N by (simp add: pm_exchange_nth)
qed

lemma Remove_mid:
  assumes c: "consistent q" and a: "a < length (pm q) - 1"
  shows "consistent (swim_nat (sink_nat (exchange q a (length (pm q) - 1)) a (length (pm q) - 1)) a)"
    and "pm (swim_nat (sink_nat (exchange q a (length (pm q) - 1)) a (length (pm q) - 1)) a) ! (length (pm q) - 1) = pm q ! a"
proof -
  let ?N = "length (pm q) - 1"
  have N: "a < length (pm q)" "?N < length (pm q)" using a by simp_all
  have c1: "consistent (exchange q a ?N)" using c N by (rule consistent_exchange)
  note f1 = sink_nat_frame [OF c1, of ?N a]
  have c2: "consistent (sink_nat (exchange q a ?N) a ?N)" "a < length (pm (sink_nat (exchange q a ?N) a ?N))"
    using f1 N by simp_all
  note f2 = swim_nat_frame [OF c2]
  show "consistent (swim_nat (sink_nat (exchange q a ?N) a ?N) a)" using f2 by simp
  show "pm (swim_nat (sink_nat (exchange q a ?N) a ?N) a) ! ?N = pm q ! a"
    using f1 f2 a N by (simp add: pm_exchange_nth)
qed

lemma Pop_heap_result:
  assumes swo: "strict_weak_order (cmp q)" and c: "consistent q" and h: "heap_upto (length (pm q)) q"
    and ne: "pm q \<noteq> []" and p: "Pop q = Inr (q', r)"
  shows "heap_upto (length (pm q')) q'"
proof -
  define N where "N = length (pm q) - 1"
  define q2 where "q2 = sink_nat (exchange q 0 N) 0 N"
  have l: "length (pm q2) = Suc N" using ne by (simp add: q2_def N_def)
  have m: "consistent q2" "pm q2 ! N = pm q ! 0"
    using Pop_mid [OF c ne] by (simp_all add: q2_def N_def)
  have h2: "heap_upto N q2"
    using Pop_heap [OF swo h ne] by (simp add: q2_def N_def)
  have "Pop q = Inr (q2\<lparr>pm := take N (pm q2), im := (im q2)(pm q ! 0 := None),
      vals := (vals q2)(pm q ! 0 := None)\<rparr>, pm q ! 0, val_at q 0, True)"
    using Pop_nat [OF c ne] unfolding q2_def N_def .
  with p have "q' = q2\<lparr>pm := take N (pm q2), im := (im q2)(pm q ! 0 := None),
      vals := (vals q2)(pm q ! 0 := None)\<rparr>"
    by simp
  then have "q' = q2\<lparr>pm := take N (pm q2), im := (im q2)(pm q ! 0 := None), vals := (vals q2)(pm q2 ! N := None)\<rparr>"
    by (simp only: m(2))
  moreover have "heap_upto N (q2\<lparr>pm := take N (pm q2), im := (im q2)(pm q ! 0 := None), vals := (vals q2)(pm q2 ! N := None)\<rparr>)"
    using m(1) l h2 by (rule drop_last_heap)
  ultimately show ?thesis using l by simp
qed

lemma Remove_heap_result:
  assumes swo: "strict_weak_order (cmp q)" and c: "consistent q" and h: "heap_upto (length (pm q)) q"
    and a: "a < length (pm q)" and p: "Remove q (pm q ! a) = Inr q'"
  shows "heap_upto (length (pm q')) q'"
proof -
  define N where "N = length (pm q) - 1"
  define q3 where "q3 = (if a \<noteq> N then swim_nat (sink_nat (exchange q a N) a N) a else q)"
  have "length (pm q3) = length (pm q)" by (simp add: q3_def)
  then have l: "length (pm q3) = Suc N" using a by (simp add: N_def)
  have m: "consistent q3 \<and> pm q3 ! N = pm q ! a \<and> heap_upto N q3"
  proof (cases "a = N")
    case True
    then show ?thesis using c h heap_upto_less [OF h, of N] by (simp add: q3_def N_def)
  next
    case False
    then have lt: "a < length (pm q) - 1" using a by (simp add: N_def)
    show ?thesis
      using Remove_mid [OF c lt] Remove_heap [OF swo h lt] False by (simp add: q3_def N_def)
  qed
  have "Remove q (pm q ! a) = Inr (q3\<lparr>pm := take N (pm q3), im := (im q3)(pm q ! a := None),
      vals := (vals q3)(pm q ! a := None)\<rparr>)"
    using Remove_nat [OF c a] unfolding Let_def q3_def N_def .
  with p have "q' = q3\<lparr>pm := take N (pm q3), im := (im q3)(pm q ! a := None), vals := (vals q3)(pm q ! a := None)\<rparr>"
    by simp
  then have "q' = q3\<lparr>pm := take N (pm q3), im := (im q3)(pm q ! a := None), vals := (vals q3)(pm q3 ! N := None)\<rparr>"
    using m by simp
  moreover have "heap_upto N (q3\<lparr>pm := take N (pm q3), im := (im q3)(pm q ! a := None), vals := (vals q3)(pm q3 ! N := None)\<rparr>)"
    using m l by (intro drop_last_heap) simp_all
  ultimately show ?thesis using l by simp
qed

lemma perform_heap:
  assumes swo: "strict_weak_order (cmp q)" and c: "consistent q" and h: "heap_upto (length (pm q)) q"
    and p: "perform q c = Inr q'"
  shows "heap_upto (length (pm q')) q'"
proof (cases c)
  case (CallPush k v)
  show ?thesis
  proof (cases "im q k")
    case None
    show ?thesis
    proof (cases "int (length (pm q)) + 1 < 2 ^ 63")
      case True
      then show ?thesis
        using p CallPush Push_nat [OF c None True, of v] Push_heap [OF swo c h None, of v] by auto
    next
      case False
      then show ?thesis using p Push_full [OF None False, of v] CallPush by simp
    qed
  next
    case (Some i)
    then show ?thesis using p h CallPush by (auto simp: Push_def)
  qed
next
  case CallPop
  show ?thesis
  proof (cases "pm q = []")
    case True
    then show ?thesis using p h CallPop by (auto simp: Pop_def len_Nil)
  next
    case False
    then show ?thesis
      using p CallPop Pop_heap_result [OF swo c h False] by (auto split: sum.splits)
  qed
next
  case (CallUpdate k v)
  show ?thesis
  proof (cases "im q k")
    case None
    then show ?thesis using p h CallUpdate by (auto simp: Update_def)
  next
    case (Some i)
    then obtain a where a: "a < length (pm q)" "pm q ! a = k"
      using consistent_im [OF c Some] by blast
    then show ?thesis
      using p CallUpdate Update_nat [OF c a(1), of v] Update_heap [OF swo c h a(1), of v] by auto
  qed
next
  case (CallRemove k)
  show ?thesis
  proof (cases "im q k")
    case None
    then show ?thesis using p h CallRemove by (auto simp: Remove_def)
  next
    case (Some i)
    then obtain a where a: "a < length (pm q)" "pm q ! a = k"
      using consistent_im [OF c Some] by blast
    then show ?thesis
      using p CallRemove Remove_heap_result [OF swo c h a(1)] by auto
  qed
qed

lemma run_heap:
  assumes "strict_weak_order (cmp q)" "consistent q" "heap_upto (length (pm q)) q" "run q cs = Inr q'"
  shows "heap_upto (length (pm q')) q'"
  using assms
proof (induction cs arbitrary: q)
  case Nil
  then show ?case by simp
next
  case (Cons c cs)
  from Cons.prems(4) obtain q1 where q1: "perform q c = Inr q1" "run q1 cs = Inr q'"
    by (auto split: sum.splits)
  have "consistent q1" "cmp q1 = cmp q"
    using perform_consistent [OF Cons.prems(2), of c] q1(1) by auto
  moreover have "heap_upto (length (pm q1)) q1"
    using perform_heap [OF Cons.prems(1-3) q1(1)] .
  ultimately show ?case
    using Cons.IH [OF _ _ _ q1(2)] Cons.prems(1) by simp
qed

lemma heap_property_iff:
  assumes c: "consistent q"
  shows "heap_property q \<longleftrightarrow> heap_upto (length (pm q)) q"
proof
  assume h: "heap_property q"
  show "heap_upto (length (pm q)) q"
    unfolding heap_upto_def
  proof (intro allI impI)
    fix j assume j: "0 < j \<and> j < length (pm q)"
    then have s: "sint (of_nat j :: goint) = int j" using consistent_slot(1) [OF c] by simp
    have "0 <s (of_nat j :: goint)" "(of_nat j :: goint) <s len (pm q)"
      using s j consistent_len [OF c] by (simp_all add: word_sless_alt)
    then have "compare q (of_nat j) (parent (of_nat j)) = Inr False"
      using h by (simp add: heap_property_def)
    moreover have "sint (parent (of_nat j :: goint)) = int ((j - 1) div 2)"
      using s j by (intro sint_parent) simp_all
    then have "compare q (of_nat j) (parent (of_nat j)) = Inr (better q j ((j - 1) div 2))"
      using j by (intro compare_nat [OF s]) auto
    ultimately show "\<not> better q j ((j - 1) div 2)" by simp
  qed
next
  assume h: "heap_upto (length (pm q)) q"
  show "heap_property q"
    unfolding heap_property_def
  proof (intro allI impI)
    fix i :: goint assume i: "0 <s i \<and> i <s len (pm q)"
    define j where "j = nat (sint i)"
    have s: "sint i = int j" "0 < j" "j < length (pm q)"
      using i consistent_len [OF c] by (auto simp: j_def word_sless_alt)
    have "sint (parent i) = int ((j - 1) div 2)"
      using s by (intro sint_parent) simp_all
    then have "compare q i (parent i) = Inr (better q j ((j - 1) div 2))"
      using s by (intro compare_nat [OF s(1)]) simp_all
    then show "compare q i (parent i) = Inr False"
      using h s by (simp add: heap_upto_def)
  qed
qed

lemma fresh_queue:
  assumes "NewKeyedPriorityQueue (Some f) = Inr q0"
  shows "consistent q0" "heap_upto (length (pm q0)) q0" "cmp q0 = f" "pm q0 = []"
  using assms by (auto simp: NewKeyedPriorityQueue_def consistent_def heap_upto_def)

lemmas evaluate_calls =
  NewKeyedPriorityQueue_def Push_def Pop_def Update_def Remove_def append1_def len_def maplen_def
  swap_def compare_def at_def slice_to_def parent_def leftChild_def mapget_def Peek_def
  swim.simps sink.simps signed_divide_int_def word_sless_alt word_sle_eq Let_def

lemma less_int_strict_weak_order: "strict_weak_order ((<) :: int \<Rightarrow> int \<Rightarrow> bool)"
  by (auto simp: strict_weak_order_def)

subsection \<open>The root of the heap\<close>













section \<open>The tests of the repository\<close>

text \<open>
  The model computes what the tests of the package expect: the five pushes of the test
  suite followed by the calls of \<^verbatim>\<open>TestKeyedPriorityQueue_Push\<close>, \<^verbatim>\<open>_Pop\<close>,
  \<^verbatim>\<open>_Update\<close> and \<^verbatim>\<open>_Remove\<close>, and the example of the package documentation.
\<close>

lemma TestKeyedPriorityQueue_Push:
  "\<exists>q. run \<lparr>pm = [], im = Map.empty, vals = Map.empty, cmp = ((<) :: int \<Rightarrow> int \<Rightarrow> bool)\<rparr>
     [CallPush ''fourth'' 10, CallPush ''second'' 8, CallPush ''third'' 9, CallPush ''first'' 6,
      CallPush ''last'' 20] = Inr q \<and>
     Peek q = Inr (''first'', 6, True)"
  by (simp add: evaluate_calls)

lemma TestKeyedPriorityQueue_Pop:
  "\<exists>q q1 q2. run \<lparr>pm = [], im = Map.empty, vals = Map.empty, cmp = ((<) :: int \<Rightarrow> int \<Rightarrow> bool)\<rparr>
     [CallPush ''fourth'' 10, CallPush ''second'' 8, CallPush ''third'' 9, CallPush ''first'' 6,
      CallPush ''last'' 20] = Inr q \<and>
     Pop q = Inr (q1, ''first'', 6, True) \<and> Peek q1 = Inr (''second'', 8, True) \<and> Len q1 = 4 \<and>
     Pop q1 = Inr (q2, ''second'', 8, True) \<and> Peek q2 = Inr (''third'', 9, True) \<and> Len q2 = 3"
  by (simp add: evaluate_calls Len_def)

lemma TestKeyedPriorityQueue_Update:
  "\<exists>q q1 q2 q3. run \<lparr>pm = [], im = Map.empty, vals = Map.empty, cmp = ((<) :: int \<Rightarrow> int \<Rightarrow> bool)\<rparr>
     [CallPush ''fourth'' 10, CallPush ''second'' 8, CallPush ''third'' 9, CallPush ''first'' 6,
      CallPush ''last'' 20] = Inr q \<and>
     Update q ''last'' 5 = Inr (q1, None) \<and> Peek q1 = Inr (''last'', 5, True) \<and>
     Update q1 ''third'' 25 = Inr (q2, None) \<and> Peek q2 = Inr (''last'', 5, True) \<and>
     Update q2 ''first'' 7 = Inr (q3, None) \<and> Peek q3 = Inr (''last'', 5, True)"
  by (simp add: evaluate_calls)

lemma TestKeyedPriorityQueue_Remove:
  "\<exists>q q1 q2 q3 q4. run \<lparr>pm = [], im = Map.empty, vals = Map.empty, cmp = ((<) :: int \<Rightarrow> int \<Rightarrow> bool)\<rparr>
     [CallPush ''fourth'' 10, CallPush ''second'' 8, CallPush ''third'' 9, CallPush ''first'' 6,
      CallPush ''last'' 20] = Inr q \<and>
     Remove q ''first'' = Inr q1 \<and> Peek q1 = Inr (''second'', 8, True) \<and> Len q1 = 4 \<and>
     Remove q1 ''third'' = Inr q2 \<and> Peek q2 = Inr (''second'', 8, True) \<and> Len q2 = 3 \<and>
     Remove q2 ''second'' = Inr q3 \<and> Peek q3 = Inr (''fourth'', 10, True) \<and> Len q3 = 2 \<and>
     Remove q3 ''last'' = Inr q4 \<and> Peek q4 = Inr (''fourth'', 10, True) \<and> Len q4 = 1"
  by (simp add: evaluate_calls Len_def)

lemma Example_of_the_package:
  "\<exists>q q1 q2. run \<lparr>pm = [], im = Map.empty, vals = Map.empty, cmp = ((<) :: int \<Rightarrow> int \<Rightarrow> bool)\<rparr>
     [CallPush ''key1'' 42, CallPush ''key2'' 30, CallPush ''key3'' 50] = Inr q \<and>
     Pop q = Inr (q1, ''key2'', 30, True) \<and>
     run q1 [CallUpdate ''key3'' 20, CallRemove ''key1''] = Inr q2 \<and> Contains q2 ''key3''"
  by (simp add: evaluate_calls Contains_def)

section \<open>The claims\<close>

subsection \<open>The invariants of reachable queues\<close>

text \<open>
  Claim C1. Let the comparison function be a strict weak ordering. In every queue that a
  sequence of calls of \<^verbatim>\<open>Push\<close>, \<^verbatim>\<open>Pop\<close>, \<^verbatim>\<open>Update\<close> and \<^verbatim>\<open>Remove\<close> reaches from a
  fresh queue, \<^verbatim>\<open>compare(i, parent(i))\<close> returns \<^verbatim>\<open>false\<close> at every slot \<open>i\<close> with
  \<open>0 < i < len(pm)\<close>: no entry has priority over the entry of its parent slot.
\<close>

theorem heap_property_of_reachable_queues:
  assumes "strict_weak_order f" "NewKeyedPriorityQueue (Some f) = Inr q0" "run q0 cs = Inr q"
  shows "\<forall>i. 0 <s i \<and> i <s len (pm q) \<longrightarrow> compare q i (parent i) = Inr False"
proof -
  note f = fresh_queue [OF assms(2)]
  have "consistent q"
    using run_consistent [OF f(1), of cs] assms(3) by auto
  moreover have "heap_upto (length (pm q)) q"
    using run_heap [OF _ f(1,2) assms(3)] assms(1) f(3) by simp
  ultimately have "heap_property q"
    by (simp add: heap_property_iff)
  then show ?thesis by (simp add: heap_property_def)
qed

theorem heap_property_of_reachable_queues_witness:
  "strict_weak_order ((<) :: int \<Rightarrow> int \<Rightarrow> bool) \<and>
   NewKeyedPriorityQueue (Some (<)) =
     Inr \<lparr>pm = ([] :: string list), im = Map.empty, vals = Map.empty, cmp = ((<) :: int \<Rightarrow> int \<Rightarrow> bool)\<rparr> \<and>
   run \<lparr>pm = [], im = Map.empty, vals = Map.empty, cmp = ((<) :: int \<Rightarrow> int \<Rightarrow> bool)\<rparr>
     [CallPush ''fourth'' 10, CallPush ''second'' 8, CallPush ''third'' 9, CallPush ''first'' 6,
      CallPush ''last'' 20, CallPop, CallUpdate ''last'' 5, CallRemove ''third''] =
     Inr \<lparr>pm = [''last'', ''second'', ''fourth''],
          im = [''second'' \<mapsto> 1, ''last'' \<mapsto> 0, ''fourth'' \<mapsto> 2],
          vals = [''fourth'' \<mapsto> 10, ''second'' \<mapsto> 8, ''last'' \<mapsto> 5], cmp = (<)\<rparr> \<and>
   (0 :: goint) <s 2 \<and> (2 :: goint) <s len [''last'', ''second'', ''fourth''] \<and>
   compare \<lparr>pm = [''last'', ''second'', ''fourth''],
          im = [''second'' \<mapsto> 1, ''last'' \<mapsto> 0, ''fourth'' \<mapsto> 2],
          vals = [''fourth'' \<mapsto> 10, ''second'' \<mapsto> 8, ''last'' \<mapsto> (5::int)], cmp = (<)\<rparr> 2 (parent 2) =
     Inr False"
proof -
  have a: "strict_weak_order ((<) :: int \<Rightarrow> int \<Rightarrow> bool)"
    by (rule less_int_strict_weak_order)
  have b: "NewKeyedPriorityQueue (Some (<)) =
     Inr \<lparr>pm = ([] :: string list), im = Map.empty, vals = Map.empty, cmp = ((<) :: int \<Rightarrow> int \<Rightarrow> bool)\<rparr>"
    by (simp add: NewKeyedPriorityQueue_def)
  have c: "run \<lparr>pm = [], im = Map.empty, vals = Map.empty, cmp = ((<) :: int \<Rightarrow> int \<Rightarrow> bool)\<rparr>
     [CallPush ''fourth'' 10, CallPush ''second'' 8, CallPush ''third'' 9, CallPush ''first'' 6,
      CallPush ''last'' 20, CallPop, CallUpdate ''last'' 5, CallRemove ''third''] =
     Inr \<lparr>pm = [''last'', ''second'', ''fourth''],
          im = [''second'' \<mapsto> 1, ''last'' \<mapsto> 0, ''fourth'' \<mapsto> 2],
          vals = [''fourth'' \<mapsto> 10, ''second'' \<mapsto> 8, ''last'' \<mapsto> 5], cmp = (<)\<rparr>"
    by (simp add: evaluate_calls)
  have d: "(0 :: goint) <s 2" "(2 :: goint) <s len [''last'', ''second'', ''fourth'']"
    by (simp_all add: len_def word_sless_alt)
  have e: "compare \<lparr>pm = [''last'', ''second'', ''fourth''],
          im = [''second'' \<mapsto> 1, ''last'' \<mapsto> 0, ''fourth'' \<mapsto> 2],
          vals = [''fourth'' \<mapsto> 10, ''second'' \<mapsto> 8, ''last'' \<mapsto> (5::int)], cmp = (<)\<rparr> 2 (parent 2) =
     Inr False"
    using heap_property_of_reachable_queues [OF a b c, THEN spec, of 2] d by simp
  show ?thesis
    by (intro conjI) (fact a b c d e)+
qed



subsection \<open>Extraction order\<close>



subsection \<open>Changing a priority\<close>



subsection \<open>Rejected calls\<close>



subsection \<open>The empty queue\<close>

text \<open>
  Claim C6. On a queue with no entries \<^verbatim>\<open>Pop\<close>, \<^verbatim>\<open>Peek\<close>, \<^verbatim>\<open>PeekKey\<close> and
  \<^verbatim>\<open>PeekValue\<close> return normally, none panics and none returns an error value, with
  \<^verbatim>\<open>false\<close> as the last result. \<^verbatim>\<open>Pop\<close> returns the queue unchanged; the three
  \<^verbatim>\<open>Peek\<close> functions only read the queue, so that they return no queue at all.
\<close>

theorem empty_queue_reports_no_value:
  assumes "pm q = []"
  shows "(\<exists>k v. Pop q = Inr (q, k, v, False)) \<and> (\<exists>k v. Peek q = Inr (k, v, False)) \<and>
         (\<exists>k. PeekKey q = Inr (k, False)) \<and> (\<exists>v. PeekValue q = Inr (v, False))"
  using assms by (simp add: Pop_def Peek_def PeekKey_def PeekValue_def len_Nil)

theorem empty_queue_reports_no_value_witness:
  "pm \<lparr>pm = [], im = Map.empty, vals = Map.empty, cmp = ((<) :: int \<Rightarrow> int \<Rightarrow> bool)\<rparr> = ([] :: string list) \<and>
   Pop \<lparr>pm = ([] :: string list), im = Map.empty, vals = Map.empty, cmp = ((<) :: int \<Rightarrow> int \<Rightarrow> bool)\<rparr> =
      Inr (\<lparr>pm = [], im = Map.empty, vals = Map.empty, cmp = (<)\<rparr>, [], 0, False) \<and>
   Peek \<lparr>pm = ([] :: string list), im = Map.empty, vals = Map.empty, cmp = ((<) :: int \<Rightarrow> int \<Rightarrow> bool)\<rparr> =
      Inr ([], 0, False) \<and>
   PeekKey \<lparr>pm = ([] :: string list), im = Map.empty, vals = Map.empty, cmp = ((<) :: int \<Rightarrow> int \<Rightarrow> bool)\<rparr> =
      Inr ([], False) \<and>
   PeekValue \<lparr>pm = ([] :: string list), im = Map.empty, vals = Map.empty, cmp = ((<) :: int \<Rightarrow> int \<Rightarrow> bool)\<rparr> =
      Inr (0, False)"
  using empty_queue_reports_no_value
    [of "\<lparr>pm = ([] :: string list), im = Map.empty, vals = Map.empty, cmp = ((<) :: int \<Rightarrow> int \<Rightarrow> bool)\<rparr>"]
  by (simp add: Pop_def Peek_def PeekKey_def PeekValue_def len_Nil default_int_def default_list_def)

text \<open>
  Claim C10. On a queue with no entries the key and the value returned by \<^verbatim>\<open>Pop\<close>,
  \<^verbatim>\<open>Peek\<close>, \<^verbatim>\<open>PeekKey\<close> and \<^verbatim>\<open>PeekValue\<close> are the zero values of their types.
  A queue whose only entry has the zero key and the zero value returns the same key and
  value, with \<^verbatim>\<open>true\<close>: the flag alone tells the two apart.
\<close>

theorem empty_results_are_zero_values:
  assumes "pm q = []"
  shows "Pop q = Inr (q, default, default, False) \<and> Peek q = Inr (default, default, False) \<and>
         PeekKey q = Inr (default, False) \<and> PeekValue q = Inr (default, False) \<and>
         (\<exists>q1 q2. Push (q\<lparr>im := Map.empty, vals := Map.empty\<rparr>) default default = Inr (q1, None) \<and>
            Peek q1 = Inr (default, default, True) \<and> PeekKey q1 = Inr (default, True) \<and>
            PeekValue q1 = Inr (default, True) \<and> Pop q1 = Inr (q2, default, default, True))"
proof -
  let ?q1 = "q\<lparr>pm := [default], im := [default \<mapsto> 0], vals := [default \<mapsto> default]\<rparr>"
  have "Push (q\<lparr>im := Map.empty, vals := Map.empty\<rparr>) default default = Inr (?q1, None)"
    using assms by (simp add: Push_def append1_def len_Nil swim_0)
  moreover have "Peek ?q1 = Inr (default, default, True)" "PeekKey ?q1 = Inr (default, True)"
    "PeekValue ?q1 = Inr (default, True)"
    by (simp_all add: Peek_def PeekKey_def PeekValue_def len_def at_def mapget_def)
  moreover have "\<exists>q2. Pop ?q1 = Inr (q2, default, default, True)"
    by (simp add: Pop_def len_def at_def mapget_def swap_def sink.simps leftChild_def slice_to_def
        word_sless_alt)
  ultimately show ?thesis
    using assms by (auto simp: Pop_def Peek_def PeekKey_def PeekValue_def len_Nil)
qed

theorem empty_results_are_zero_values_witness:
  "pm \<lparr>pm = [], im = Map.empty, vals = Map.empty, cmp = ((<) :: int \<Rightarrow> int \<Rightarrow> bool)\<rparr> = ([] :: string list) \<and>
   Peek \<lparr>pm = ([] :: string list), im = Map.empty, vals = Map.empty, cmp = ((<) :: int \<Rightarrow> int \<Rightarrow> bool)\<rparr> =
      Inr ([], 0, False)"
  using empty_results_are_zero_values
    [of "\<lparr>pm = ([] :: string list), im = Map.empty, vals = Map.empty, cmp = ((<) :: int \<Rightarrow> int \<Rightarrow> bool)\<rparr>"]
  by (simp add: default_int_def default_list_def)


subsection \<open>Removing an absent key\<close>



subsection \<open>The constructor\<close>



subsection \<open>Index arithmetic of the downward pass\<close>

text \<open>
  Claim C9. \<^verbatim>\<open>leftChild\<close> computes \<open>2i + 1\<close> in 64-bit integers. For a slot \<open>i \<ge> 0\<close>
  whose \<open>2i + 1\<close> does not fit, the wrapped result is negative, and on a negative left
  child \<^verbatim>\<open>sink\<close> returns the queue as it is, whatever the slice holds. For a slot
  \<open>i \<ge> 0\<close> and a bound \<open>n\<close> that is at most the length of \<^verbatim>\<open>pm\<close>, \<^verbatim>\<open>sink\<close> returns
  without a panic, and it does the same when the slice is cut to its first \<open>n\<close> slots,
  where any read or write of a slot outside \<open>[0, n)\<close> would panic; the two results agree
  on these slots.
\<close>

theorem sink_stays_within_bound:
  "leftChild i = i * 2 + 1 \<and>
   (0 \<le>s i \<and> 2 ^ 63 \<le> 2 * sint i + 1 \<longrightarrow> leftChild i <s 0) \<and>
   (leftChild i <s 0 \<longrightarrow> sink q i n = Inr q) \<and>
   (0 \<le>s i \<and> sint n \<le> int (length (pm q)) \<longrightarrow>
      (\<exists>q'. sink q i n = Inr q' \<and>
         sink (q\<lparr>pm := take (nat (sint n)) (pm q)\<rparr>) i n = Inr (q'\<lparr>pm := take (nat (sint n)) (pm q')\<rparr>)))"
proof (intro conjI impI)
  show "leftChild i = i * 2 + 1" by (simp add: leftChild_def)
next
  assume "0 \<le>s i \<and> 2 ^ 63 \<le> 2 * sint i + 1"
  then have "0 \<le> sint i" "\<not> 2 * sint i + 1 < 2 ^ 63" by (simp_all add: word_sle_eq)
  then have "sint (leftChild i) < 0" using sint_leftChild [of i] by simp
  then show "leftChild i <s 0" by (simp add: word_sless_alt)
next
  assume "leftChild i <s 0"
  then show "sink q i n = Inr q" by (simp add: sink_unfold)
next
  assume a: "0 \<le>s i \<and> sint n \<le> int (length (pm q))"
  then have i0: "0 \<le> sint i" by (simp add: word_sle_eq)
  define a' where "a' = nat (sint i)"
  have ia: "sint i = int a'" using i0 by (simp add: a'_def)
  show "\<exists>q'. sink q i n = Inr q' \<and>
         sink (q\<lparr>pm := take (nat (sint n)) (pm q)\<rparr>) i n = Inr (q'\<lparr>pm := take (nat (sint n)) (pm q')\<rparr>)"
  proof (cases "sint n < 0")
    case True
    then have "sink q i n = Inr q" "sink (q\<lparr>pm := take (nat (sint n)) (pm q)\<rparr>) i n = Inr (q\<lparr>pm := take (nat (sint n)) (pm q)\<rparr>)"
      using i0 by (simp_all add: sink_negative_bound)
    then show ?thesis by simp
  next
    case False
    define N where "N = nat (sint n)"
    have nN: "sint n = int N" using False by (simp add: N_def)
    have le: "N \<le> length (pm q)" using a nN by simp
    have "sink q i n = Inr (sink_nat q a' N)"
      using ia nN le by (rule sink_refines)
    moreover have "sink (q\<lparr>pm := take N (pm q)\<rparr>) i n = Inr (sink_nat (q\<lparr>pm := take N (pm q)\<rparr>) a' N)"
      using le by (intro sink_refines [OF ia nN]) simp
    ultimately show ?thesis
      using sink_nat_take [OF le, of a'] by (simp add: N_def)
  qed
qed

theorem sink_stays_within_bound_witness:
  "0 \<le>s (4611686018427387904 :: goint) \<and> 2 ^ 63 \<le> 2 * sint (4611686018427387904 :: goint) + 1 \<and>
   leftChild 4611686018427387904 <s 0 \<and>
   sink \<lparr>pm = [''C'', ''A'', ''B''], im = [''C'' \<mapsto> 0, ''A'' \<mapsto> 1, ''B'' \<mapsto> 2],
         vals = [''A'' \<mapsto> (10::int), ''B'' \<mapsto> 8, ''C'' \<mapsto> 9], cmp = (<)\<rparr> 4611686018427387904 3 =
     Inr \<lparr>pm = [''C'', ''A'', ''B''], im = [''C'' \<mapsto> 0, ''A'' \<mapsto> 1, ''B'' \<mapsto> 2],
          vals = [''A'' \<mapsto> 10, ''B'' \<mapsto> 8, ''C'' \<mapsto> 9], cmp = (<)\<rparr> \<and>
   0 \<le>s (0 :: goint) \<and> sint (3 :: goint) \<le> int (length [''C'', ''A'', ''B'']) \<and>
   (\<exists>q'. sink \<lparr>pm = [''C'', ''A'', ''B''], im = [''C'' \<mapsto> 0, ''A'' \<mapsto> 1, ''B'' \<mapsto> 2],
         vals = [''A'' \<mapsto> (10::int), ''B'' \<mapsto> 8, ''C'' \<mapsto> 9], cmp = (<)\<rparr> 0 3 = Inr q')"
  using sink_stays_within_bound [of 4611686018427387904
      "\<lparr>pm = [''C'', ''A'', ''B''], im = [''C'' \<mapsto> 0, ''A'' \<mapsto> 1, ''B'' \<mapsto> 2],
         vals = [''A'' \<mapsto> (10::int), ''B'' \<mapsto> 8, ''C'' \<mapsto> 9], cmp = (<)\<rparr>" 3]
    sink_stays_within_bound [of 0
      "\<lparr>pm = [''C'', ''A'', ''B''], im = [''C'' \<mapsto> 0, ''A'' \<mapsto> 1, ''B'' \<mapsto> 2],
         vals = [''A'' \<mapsto> (10::int), ''B'' \<mapsto> 8, ''C'' \<mapsto> 9], cmp = (<)\<rparr>" 3]
  by (auto simp: word_sle_eq word_sless_alt)

end
